theory Spec2Isabelle
  imports Complex_Main
begin

section \<open>Errors\<close>

text \<open>
  Every exception the modelled code can raise is a value. The conversion script and
  the routing blocks never catch an exception, so an error aborts the whole
  computation: results are of type \<open>error + 'a\<close>, with \<open>Inl\<close> for the raise.
\<close>

datatype error =
    NoSuchGroup        \<comment> \<open>\<open>regex.error\<close>: the replacement template names a group the pattern lacks\<close>
  | UnpackError        \<comment> \<open>\<open>ValueError\<close>: a tuple assignment with the wrong number of values\<close>
  | KeyError           \<comment> \<open>a dictionary lookup of a missing key\<close>
  | ShapeError         \<comment> \<open>\<open>RuntimeError\<close> of the tensor library: shapes that do not fit\<close>
  | StrictLoadError    \<comment> \<open>\<open>RuntimeError\<close> of \<open>load_state_dict(strict=True)\<close>\<close>
  | TypeError          \<comment> \<open>\<open>TypeError\<close>: a call of an object that is not callable\<close>
  | AttributeError     \<comment> \<open>\<open>AttributeError\<close>: a module attribute that was never set\<close>
  | OSError            \<comment> \<open>an exception of a library call that reads or writes files\<close>

definition ebind :: "error + 'a \<Rightarrow> ('a \<Rightarrow> error + 'b) \<Rightarrow> error + 'b" where
  "ebind m f = (case m of Inl e \<Rightarrow> Inl e | Inr x \<Rightarrow> f x)"

section \<open>Regular expressions of the conversion script\<close>

text \<open>
  The script imports the \<open>regex\<close> package under the name \<open>re\<close>. Its patterns
  are sequences of four kinds of atoms only: a literal character, \<open>.\<close> (any
  character but the newline), the capturing group \<open>(\d+)\<close> (a greedy, backtracking
  run of decimal digits) and a capturing group of single-character alternatives such
  as \<open>(k|v|q)\<close>. A name is a string of 8-bit characters here, code points below
  256. On a Python \<open>str\<close> the class \<open>\d\<close> is every Unicode decimal digit; among
  the code points below 256 these are the ten ASCII digits. Names with code points
  from 256 on are outside the model.
\<close>

datatype atom = Lit char | AnyChar | Digits | Choice "char list"

type_synonym pattern = "atom list"

text \<open>A replacement template: literal characters and group references \<open>\1\<close>, \<open>\2\<close>, ...\<close>

datatype ritem = RLit char | RGroup nat

definition newline :: char where
  "newline = CHR 0x0A"

definition is_digit :: "char \<Rightarrow> bool" where
  "is_digit c = (c \<in> set ''0123456789'')"

definition lit :: "string \<Rightarrow> pattern" where
  "lit s = map Lit s"

definition rlit :: "string \<Rightarrow> ritem list" where
  "rlit s = map RLit s"

text \<open>
  \<open>try_digits f s k\<close> is the backtracking of \<open>(\d+)\<close>: the longest run first, then
  shorter ones, down to one digit; \<open>f j\<close> matches the rest of the pattern after
  \<open>j\<close> digits.
\<close>

fun try_digits :: "(nat \<Rightarrow> (string list \<times> string) option) \<Rightarrow> string \<Rightarrow> nat
    \<Rightarrow> (string list \<times> string) option" where
  "try_digits f s 0 = None"
| "try_digits f s (Suc k) =
     (case f (Suc k) of
        Some (gs, r) \<Rightarrow> Some (take (Suc k) s # gs, r)
      | None \<Rightarrow> try_digits f s k)"

text \<open>
  \<open>match_here p s\<close> matches the pattern at the start of \<open>s\<close> and returns the
  captured groups, in order, and the text after the match.
\<close>

fun match_here :: "pattern \<Rightarrow> string \<Rightarrow> (string list \<times> string) option" where
  "match_here [] s = Some ([], s)"
| "match_here (Lit c # p) s =
     (case s of [] \<Rightarrow> None | x # xs \<Rightarrow> if x = c then match_here p xs else None)"
| "match_here (AnyChar # p) s =
     (case s of [] \<Rightarrow> None | x # xs \<Rightarrow> if x \<noteq> newline then match_here p xs else None)"
| "match_here (Choice cs # p) s =
     (case s of [] \<Rightarrow> None
      | x # xs \<Rightarrow>
          if x \<in> set cs
          then (case match_here p xs of None \<Rightarrow> None | Some (gs, r) \<Rightarrow> Some ([x] # gs, r))
          else None)"
| "match_here (Digits # p) s =
     try_digits (\<lambda>k. match_here p (drop k s)) s (length (takeWhile is_digit s))"

text \<open>\<open>re.search(pattern, s)\<close> used as a truth value: is there a match at some position.\<close>

fun re_search :: "pattern \<Rightarrow> string \<Rightarrow> bool" where
  "re_search p [] = (match_here p [] \<noteq> None)"
| "re_search p (x # xs) = (match_here p (x # xs) \<noteq> None \<or> re_search p xs)"

text \<open>
  Expanding a template for one match. The \<open>regex\<close> package checks a group
  reference when it builds the replacement of a match, and raises there.
\<close>

fun expand :: "ritem list \<Rightarrow> string list \<Rightarrow> error + string" where
  "expand [] gs = Inr []"
| "expand (RLit c # t) gs = ebind (expand t gs) (\<lambda>r. Inr (c # r))"
| "expand (RGroup i # t) gs =
     (if 1 \<le> i \<and> i \<le> length gs
      then ebind (expand t gs) (\<lambda>r. Inr (gs ! (i - 1) @ r))
      else Inl NoSuchGroup)"

text \<open>
  \<open>re.sub(pattern, repl, s)\<close>: the leftmost matches, left to right, non-overlapping,
  each replaced by the expanded template. An empty match is replaced and the next
  character copied.
\<close>

fun re_sub :: "pattern \<Rightarrow> ritem list \<Rightarrow> string \<Rightarrow> error + string" where
  "re_sub p t [] =
     (case match_here p [] of None \<Rightarrow> Inr [] | Some (gs, r) \<Rightarrow> expand t gs)"
| "re_sub p t (x # xs) =
     (case match_here p (x # xs) of
        None \<Rightarrow> ebind (re_sub p t xs) (\<lambda>r. Inr (x # r))
      | Some (gs, r) \<Rightarrow>
          if length r < length (x # xs)
          then ebind (expand t gs) (\<lambda>a. ebind (re_sub p t r) (\<lambda>b. Inr (a @ b)))
          else ebind (expand t gs) (\<lambda>a. ebind (re_sub p t xs) (\<lambda>b. Inr (a @ x # b))))"

section \<open>Joining and splitting lines\<close>

text \<open>\<open>"\n".join(keys)\<close> and \<open>text.split("\n")\<close>.\<close>

fun join_lines :: "string list \<Rightarrow> string" where
  "join_lines [] = []"
| "join_lines [l] = l"
| "join_lines (l # l' # ls) = l @ newline # join_lines (l' # ls)"

fun split_lines :: "string \<Rightarrow> string list" where
  "split_lines [] = [[]]"
| "split_lines (c # cs) =
     (if c = newline then [] # split_lines cs
      else (case split_lines cs of [] \<Rightarrow> [[c]] | l # ls \<Rightarrow> (c # l) # ls))"

text \<open>\<open>dict(pairs)\<close>: a later pair overrides an earlier one with the same key.\<close>

definition dict_of :: "('k \<times> 'v) list \<Rightarrow> ('k \<rightharpoonup> 'v)" where
  "dict_of ps = foldl (\<lambda>m (k, v). m(k \<mapsto> v)) Map.empty ps"

section \<open>The key mapping table and convert_old_keys_to_new_keys\<close>

text \<open>
  The rules of \<open>ORIGINAL_TO_CONVERTED_KEY_MAPPING\<close> in the order of the dictionary
  literal. A replacement of \<open>None\<close> is the rule for a key that is not wanted.
\<close>

definition block_prefix :: pattern where
  "block_prefix = lit ''block'' @ [AnyChar, Digits, AnyChar]"

definition layers_prefix :: "ritem list" where
  "layers_prefix = rlit ''layers.'' @ [RGroup 1]"

definition ORIGINAL_TO_CONVERTED_KEY_MAPPING :: "(pattern \<times> ritem list option) list" where
  "ORIGINAL_TO_CONVERTED_KEY_MAPPING =
   [ (lit ''norm'' @ [AnyChar] @ lit ''weight'', Some (rlit ''norm.weight'')),
     (lit ''unembedding'' @ [AnyChar] @ lit ''weight'', Some (rlit ''lm_head.weight'')),
     (lit ''embedding'', Some (rlit ''embed_tokens'')),
     (lit ''rope'' @ [AnyChar] @ lit ''freqs'', None),
     (block_prefix @ lit ''attn'' @ [AnyChar] @ lit ''qkv'',
        Some (layers_prefix @ rlit ''.self_attn.(k|v|q)_proj'')),
     (block_prefix @ lit ''attn'' @ [AnyChar] @ lit ''out'',
        Some (layers_prefix @ rlit ''.self_attn.'' @ [RGroup 2] @ rlit ''_proj'')),
     (block_prefix @ lit ''attn'' @ [AnyChar] @ lit ''sinks'',
        Some (layers_prefix @ rlit ''.self_attn.sinks'')),
     (block_prefix @ lit ''attn'' @ [AnyChar] @ lit ''norm'',
        Some (layers_prefix @ rlit ''.input_layernorm.weight'')),
     (block_prefix @ lit ''mlp'' @ [AnyChar] @ lit ''mlp1_weight'',
        Some (layers_prefix @ rlit ''.mlp.gate_up_proj.weight'')),
     (block_prefix @ lit ''mlp'' @ [AnyChar] @ lit ''mlp1_bias'',
        Some (layers_prefix @ rlit ''.mlp.gate_up_proj.bias'')),
     (block_prefix @ lit ''mlp'' @ [AnyChar] @ lit ''mlp2_weight'',
        Some (layers_prefix @ rlit ''.mlp.down_proj.weight'')),
     (block_prefix @ lit ''mlp'' @ [AnyChar] @ lit ''mlp2_bias'',
        Some (layers_prefix @ rlit ''.mlp.down_proj.bias'')),
     (block_prefix @ lit ''mlp'' @ [AnyChar] @ lit ''norm'',
        Some (layers_prefix @ rlit ''.post_attention_layernorm.weight'')),
     (block_prefix @ lit ''mlp'' @ [AnyChar] @ lit ''gate'',
        Some (layers_prefix @ rlit ''.mlp.router.weight'')) ]"

text \<open>
  The loop over the rules: a rule with replacement \<open>None\<close> substitutes the empty
  string for each match, any other rule its template.
\<close>

fun apply_rules :: "(pattern \<times> ritem list option) list \<Rightarrow> string \<Rightarrow> error + string" where
  "apply_rules [] new_text = Inr new_text"
| "apply_rules ((p, None) # rs) new_text = ebind (re_sub p [] new_text) (apply_rules rs)"
| "apply_rules ((p, Some replacement) # rs) new_text =
     ebind (re_sub p replacement new_text) (apply_rules rs)"

definition convert_old_keys_to_new_keys :: "string list option \<Rightarrow> error + (string \<rightharpoonup> string)" where
  "convert_old_keys_to_new_keys state_dict_keys =
     (case state_dict_keys of
        None \<Rightarrow> Inr Map.empty
      | Some keys \<Rightarrow>
          (let old_text = join_lines keys
           in ebind (apply_rules ORIGINAL_TO_CONVERTED_KEY_MAPPING old_text)
                (\<lambda>new_text. Inr (dict_of (zip (split_lines old_text) (split_lines new_text))))))"

section \<open>Tensors\<close>

text \<open>
  A tensor is its shape and its elements in row-major order. The operations of the
  conversion script act along the last axis, so a tensor is read as its rows along
  that axis: \<open>prod_list (butlast (shape t))\<close> rows of \<open>last (shape t)\<close> elements.
\<close>

record 'a tensor =
  shape :: "nat list"
  data :: "'a list"

definition wf_tensor :: "'a tensor \<Rightarrow> bool" where
  "wf_tensor t = (length (data t) = prod_list (shape t))"

definition last_size :: "'a tensor \<Rightarrow> nat" where
  "last_size t = last (shape t)"

definition row_at :: "nat \<Rightarrow> 'a list \<Rightarrow> nat \<Rightarrow> 'a list" where
  "row_at n xs r = take n (drop (r * n) xs)"

definition rows :: "'a tensor \<Rightarrow> 'a list list" where
  "rows t = map (row_at (last (shape t)) (data t)) [0..<prod_list (butlast (shape t))]"

text \<open>\<open>t.narrow(-1, start, len)\<close>: the slice \<open>start..start+len\<close> of every row.\<close>

definition narrow_last :: "nat \<Rightarrow> nat \<Rightarrow> 'a tensor \<Rightarrow> 'a tensor" where
  "narrow_last start len t =
     \<lparr> shape = butlast (shape t) @ [len],
       data = concat (map (\<lambda>row. take len (drop start row)) (rows t)) \<rparr>"

text \<open>
  \<open>t.split(split_size, dim=-1)\<close> of the tensor library: pieces of \<open>split_size\<close>,
  the last one with what is left.
\<close>

definition split_last :: "nat \<Rightarrow> 'a tensor \<Rightarrow> 'a tensor list" where
  "split_last split_size t =
     (let dim_size = last (shape t);
          num_splits = max ((dim_size + split_size - 1) div split_size) 1;
          last_split_size = split_size - (split_size * num_splits - dim_size)
      in map (\<lambda>i. narrow_last (i * split_size)
                     (if i < num_splits - 1 then split_size else last_split_size) t)
           [0..<num_splits])"

text \<open>
  \<open>t.chunk(chunks, dim=-1)\<close> of the tensor library: the split size is the axis size
  divided by \<open>chunks\<close>, rounded up, so there can be fewer than \<open>chunks\<close> pieces. An
  axis of size 0 gives \<open>chunks\<close> empty pieces. A tensor without an axis and
  \<open>chunks = 0\<close> are errors.
\<close>

definition chunk_last :: "nat \<Rightarrow> 'a tensor \<Rightarrow> error + 'a tensor list" where
  "chunk_last chunks t =
     (if shape t = [] \<or> chunks = 0 then Inl ShapeError
      else
        (let dim_size = last (shape t);
             split_size = (dim_size + chunks - 1) div chunks
         in if split_size = 0 \<and> dim_size = 0
            then Inr (replicate chunks (narrow_last 0 0 t))
            else Inr (split_last split_size t)))"

text \<open>
  \<open>torch.cat(ts, dim=-1)\<close> for tensors with the same leading axes, the operation the
  specification reconstructs a fused tensor with: row \<open>r\<close> of the result is the rows
  \<open>r\<close> of the pieces, one after the other.
\<close>

definition cat_last :: "'a tensor list \<Rightarrow> 'a tensor" where
  "cat_last ts =
     \<lparr> shape = butlast (shape (hd ts)) @ [sum_list (map last_size ts)],
       data = concat (map (\<lambda>r. concat (map (\<lambda>t. row_at (last_size t) (data t) r) ts))
                        [0..<prod_list (butlast (shape (hd ts)))]) \<rparr>"

section \<open>The conversion loop of write_model\<close>

text \<open>\<open>sub in s\<close> on strings.\<close>

fun contains :: "string \<Rightarrow> string \<Rightarrow> bool" where
  "contains sub [] = (sub = [])"
| "contains sub (x # xs) = (take (length sub) (x # xs) = sub \<or> contains sub xs)"

text \<open>The pattern \<open>(k|v|q)_proj.weight\<close> of the loop.\<close>

definition qkv_pattern :: pattern where
  "qkv_pattern = [Choice ''kvq''] @ lit ''_proj'' @ [AnyChar] @ lit ''weight''"

definition lookup :: "('k \<rightharpoonup> 'v) \<Rightarrow> 'k \<Rightarrow> error + 'v" where
  "lookup m k = (case m k of None \<Rightarrow> Inl KeyError | Some v \<Rightarrow> Inr v)"

text \<open>\<open>new_keys.get(key, key)\<close>.\<close>

definition get_default :: "(string \<rightharpoonup> string) \<Rightarrow> string \<Rightarrow> string" where
  "get_default new_keys key = (case new_keys key of None \<Rightarrow> key | Some k \<Rightarrow> k)"

text \<open>\<open>q, k, v = t.chunk(3, dim=-1)\<close>: the assignment needs exactly three pieces.\<close>

definition qkv_unpack :: "'a tensor \<Rightarrow> error + ('a tensor \<times> 'a tensor \<times> 'a tensor)" where
  "qkv_unpack t =
     ebind (chunk_last 3 t)
       (\<lambda>cs. case cs of [q, k, v] \<Rightarrow> Inr (q, k, v) | _ \<Rightarrow> Inl UnpackError)"

text \<open>One iteration of the loop over \<open>all_keys\<close>, on the state dictionary built so far.\<close>

definition write_model_step ::
  "(string \<rightharpoonup> string) \<Rightarrow> (string \<rightharpoonup> 'a tensor) \<Rightarrow> (string \<rightharpoonup> 'a tensor) \<Rightarrow> string
     \<Rightarrow> error + (string \<rightharpoonup> 'a tensor)" where
  "write_model_step new_keys loaded0 state_dict key =
     (let new_key = get_default new_keys key
      in if re_search qkv_pattern new_key \<and> contains ''language_model'' new_key
         then
           ebind (lookup loaded0 key) (\<lambda>t.
           ebind (qkv_unpack t) (\<lambda>(q, k, v).
           ebind (re_sub qkv_pattern (rlit ''q_proj.weight'') new_key) (\<lambda>q_key.
           ebind (re_sub qkv_pattern (rlit ''k_proj.weight'') new_key) (\<lambda>k_key.
           ebind (re_sub qkv_pattern (rlit ''v_proj.weight'') new_key) (\<lambda>v_key.
             Inr (state_dict(q_key \<mapsto> q, k_key \<mapsto> k, v_key \<mapsto> v)))))))
         else ebind (lookup loaded0 key) (\<lambda>t. Inr (state_dict(new_key \<mapsto> t))))"

fun write_model_loop ::
  "(string \<rightharpoonup> string) \<Rightarrow> (string \<rightharpoonup> 'a tensor) \<Rightarrow> (string \<rightharpoonup> 'a tensor) \<Rightarrow> string list
     \<Rightarrow> error + (string \<rightharpoonup> 'a tensor)" where
  "write_model_loop new_keys loaded0 state_dict [] = Inr state_dict"
| "write_model_loop new_keys loaded0 state_dict (key # keys) =
     ebind (write_model_step new_keys loaded0 state_dict key)
       (\<lambda>sd. write_model_loop new_keys loaded0 sd keys)"

text \<open>
  The part of \<open>write_model\<close> from \<open>all_keys = list(loaded[0].keys())\<close> to the end of
  the loop, as a function of the loaded mapping, given as the list of its items
  (the keys of a dictionary are distinct).
\<close>

definition write_model_state_dict :: "(string \<times> 'a tensor) list \<Rightarrow> error + (string \<rightharpoonup> 'a tensor)" where
  "write_model_state_dict loaded0 =
     (let all_keys = map fst loaded0
      in ebind (convert_old_keys_to_new_keys (Some all_keys))
           (\<lambda>new_keys. write_model_loop new_keys (map_of loaded0) Map.empty all_keys))"

section \<open>Loading the state dictionary\<close>

text \<open>
  Modelled from the spec: \<open>load_state_dict\<close> is a method of the tensor library's
  module class and is not among the sources. The specification has the remapped
  tensors bound by exact name match, a name of the target model that the source
  mapping lacks being a fatal strict-load error, and it lists a shape mismatch during
  the strict parameter binding among the fatal errors; with \<open>strict=True\<close> the
  library also refuses a name of the mapping that the model lacks. \<open>params\<close>
  gives the shape of every parameter of the target model, by name.
\<close>

definition load_state_dict ::
  "(string \<rightharpoonup> nat list) \<Rightarrow> (string \<rightharpoonup> 'a tensor) \<Rightarrow> bool \<Rightarrow> error + (string \<rightharpoonup> 'a tensor)" where
  "load_state_dict params state_dict strict =
     (let missing_keys = dom params - dom state_dict;
          unexpected_keys = dom state_dict - dom params;
          size_mismatch = {name. \<exists>s t. params name = Some s \<and> state_dict name = Some t
                                    \<and> shape t \<noteq> s}
      in if size_mismatch \<noteq> {} \<or> (strict \<and> (missing_keys \<noteq> {} \<or> unexpected_keys \<noteq> {}))
         then Inl StrictLoadError
         else Inr (\<lambda>name. if name \<in> dom params then state_dict name else None))"

section \<open>write_model\<close>

text \<open>
  What \<open>write_model\<close> reads from outside: the outcome of \<open>os.makedirs(model_path,
  exist_ok=True)\<close>, of \<open>OpenaiConfig.from_pretrained(input_base_path)\<close> and of
  \<open>os.listdir(model_path)\<close>, the function \<open>safe_load\<close> of the safetensors library,
  from the file names it is given to the items of the loaded mapping, and the
  parameters of \<open>OpenaiForCausalLM(config)\<close>, each with its shape.
\<close>

record 'a conversion_env =
  makedirs :: "error + unit"
  config_from_pretrained :: "error + unit"
  listdir :: "error + string list"
  safe_load :: "string list \<Rightarrow> error + (string \<times> 'a tensor) list"
  model_params :: "string \<rightharpoonup> nat list"

text \<open>
  The script has \<open>import tqdm\<close>, which binds the name \<open>tqdm\<close> to the module, not
  to the class \<open>tqdm.tqdm\<close> in it. Line 105 calls that name, and a call of a module
  raises \<open>TypeError\<close>.
\<close>

definition tqdm :: "'b \<Rightarrow> error + 'b" where
  "tqdm iterable = Inl TypeError"

text \<open>\<open>s.endswith(suffix)\<close>.\<close>

definition endswith :: "string \<Rightarrow> string \<Rightarrow> bool" where
  "endswith s suffix =
     (length suffix \<le> length s \<and> drop (length s - length suffix) s = suffix)"

text \<open>
  \<open>write_model\<close> from its first line to
  \<open>model.load_state_dict(state_dict, strict=True, assign=True)\<close> of line 132. In line
  105 the generator expression evaluates its iterable, \<open>tqdm(os.listdir(model_path),
  ...)\<close>, at once: first the argument, then the call. Nothing catches an exception,
  so an error of any step is the result.
\<close>

definition write_model :: "'a conversion_env \<Rightarrow> error + (string \<rightharpoonup> 'a tensor)" where
  "write_model env =
     ebind (makedirs env) (\<lambda>made.
     ebind (config_from_pretrained env) (\<lambda>config.
     ebind (listdir env) (\<lambda>files.
     ebind (tqdm files) (\<lambda>shards.
     ebind (safe_load env (filter (\<lambda>file. endswith file ''.safetensors'') shards)) (\<lambda>loaded0.
     ebind (write_model_state_dict loaded0) (\<lambda>state_dict.
       load_state_dict (model_params env) state_dict True))))))"

section \<open>Numbers of the routing blocks\<close>

text \<open>
  The arithmetic of the routing blocks is modelled on the real numbers: a weight is a
  real, with neither rounding, overflow nor a not-a-number, and the casts between
  number formats (\<open>dtype=torch.float\<close>, \<open>.float()\<close>, \<open>.to(dtype)\<close>) change nothing.
  The one non-finite value the code writes, \<open>float("-inf")\<close>, is a value of its
  own. What the model says of the numbers is therefore about which operations are
  applied to which scores and in which order; a property of the rounded results, such
  as a sum within a tolerance or a sigmoid that reaches \<open>1.0\<close>, is outside it.
\<close>

datatype xreal = NegInf | Fin real

definition sigmoid :: "real \<Rightarrow> real" where
  "sigmoid x = 1 / (1 + exp (- x))"

definition xsigmoid :: "xreal \<Rightarrow> real" where
  "xsigmoid x = (case x of NegInf \<Rightarrow> 0 | Fin r \<Rightarrow> sigmoid r)"

text \<open>\<open>F.softmax\<close> of one row.\<close>

definition softmax :: "real list \<Rightarrow> real list" where
  "softmax xs = map (\<lambda>x. exp x / sum_list (map exp xs)) xs"

text \<open>
  \<open>torch.topk\<close> of one row: the \<open>k\<close> largest values in descending order, with
  their positions; more than the row has is an error. The library leaves the order
  of equal values open; here the lower position comes first.
\<close>

definition topk :: "nat \<Rightarrow> real list \<Rightarrow> error + (real list \<times> nat list)" where
  "topk k xs =
     (if length xs < k then Inl ShapeError
      else
        (let ranked = take k (sort_key (\<lambda>(v, i). - v) (zip xs [0..<length xs]))
         in Inr (map fst ranked, map snd ranked)))"

text \<open>\<open>row.scatter_(0, index, src)\<close> on one row: \<open>row[index[j]] = src[j]\<close>.\<close>

definition scatter_row :: "'a list \<Rightarrow> nat list \<Rightarrow> 'a list \<Rightarrow> 'a list" where
  "scatter_row row index src = fold (\<lambda>(i, v) r. r[i := v]) (zip index src) row"

definition dot :: "real list \<Rightarrow> real list \<Rightarrow> real" where
  "dot w x = sum_list (map2 (*) w x)"

section \<open>Routing of one vector\<close>

text \<open>
  Lines 90 to 93 of \<open>Qwen2MoeNaiveMoe.forward\<close> for one row of router logits:
  softmax over all experts, then the top \<open>top_k\<close> of the probabilities, then, with
  \<open>norm_topk_prob\<close>, a division by their sum.
\<close>

definition Qwen2Moe_routing :: "nat \<Rightarrow> bool \<Rightarrow> real list \<Rightarrow> error + (real list \<times> nat list)" where
  "Qwen2Moe_routing top_k norm_topk_prob logits =
     ebind (topk top_k (softmax logits))
       (\<lambda>(routing_weights, selected_experts).
          Inr (if norm_topk_prob
               then map (\<lambda>w. w / sum_list routing_weights) routing_weights
               else routing_weights,
               selected_experts))"

text \<open>
  Lines 66 to 68 of \<open>OpenaiMLP.forward\<close> for one row of router logits: the top
  \<open>top_k\<close> of the logits and their positions, scattered into a row of \<open>-inf\<close>
  (\<open>topk\<close>, \<open>full_like\<close>, \<open>scatter_\<close>). The row has one entry per expert.
\<close>

definition Openai_scattered :: "nat \<Rightarrow> real list \<Rightarrow> error + xreal list" where
  "Openai_scattered top_k logits =
     ebind (topk top_k logits)
       (\<lambda>(router_top_value, router_indices).
          Inr (scatter_row (replicate (length logits) NegInf) router_indices
                 (map Fin router_top_value)))"

text \<open>
  The scores of one vector: the scattered row under the sigmoid of line 70. (Between
  the two the source transposes the matrix of all rows, which moves the entries and
  does not change them.)
\<close>

definition Openai_router_scores :: "nat \<Rightarrow> real list \<Rightarrow> error + real list" where
  "Openai_router_scores top_k logits =
     ebind (Openai_scattered top_k logits) (\<lambda>scattered. Inr (map xsigmoid scattered))"

section \<open>Tensor operations of the routing blocks\<close>

definition numel :: "'a tensor \<Rightarrow> nat" where
  "numel t = prod_list (shape t)"

text \<open>
  \<open>t.reshape(pre..., -1, post...)\<close> and \<open>t.view(pre..., -1, post...)\<close>: the free
  axis takes what the others leave. It is an error when the others multiply to 0 or
  do not divide the number of elements.
\<close>

definition reshape_infer :: "nat list \<Rightarrow> nat list \<Rightarrow> 'a tensor \<Rightarrow> error + 'a tensor" where
  "reshape_infer pre post t =
     (let known = prod_list (pre @ post)
      in if known = 0 \<or> numel t mod known \<noteq> 0 then Inl ShapeError
         else Inr \<lparr> shape = pre @ [numel t div known] @ post, data = data t \<rparr>)"

text \<open>\<open>t.reshape(new_shape)\<close> with every axis given.\<close>

definition reshape :: "nat list \<Rightarrow> 'a tensor \<Rightarrow> error + 'a tensor" where
  "reshape new_shape t =
     (if prod_list new_shape \<noteq> numel t then Inl ShapeError
      else Inr \<lparr> shape = new_shape, data = data t \<rparr>)"

definition tmap :: "('a \<Rightarrow> 'b) \<Rightarrow> 'a tensor \<Rightarrow> 'b tensor" where
  "tmap f t = \<lparr> shape = shape t, data = map f (data t) \<rparr>"

text \<open>
  Broadcasting of the tensor library. The shorter shape gets leading axes of size 1;
  two axes fit when they are equal or one of them is 1, and an axis of size 1 is
  repeated along the other.
\<close>

definition pad_shape :: "nat \<Rightarrow> nat list \<Rightarrow> nat list" where
  "pad_shape n s = replicate (n - length s) 1 @ s"

definition bdim :: "nat \<Rightarrow> nat \<Rightarrow> nat" where
  "bdim x y = (if x = 1 then y else x)"

fun broadcast_shape :: "nat list \<Rightarrow> nat list \<Rightarrow> error + nat list" where
  "broadcast_shape [] [] = Inr []"
| "broadcast_shape (x # xs) (y # ys) =
     (if x = y \<or> x = 1 \<or> y = 1
      then ebind (broadcast_shape xs ys) (\<lambda>r. Inr (bdim x y # r))
      else Inl ShapeError)"
| "broadcast_shape xs ys = Inl ShapeError"

fun broadcast_data ::
  "('a \<Rightarrow> 'b \<Rightarrow> 'c) \<Rightarrow> nat list \<Rightarrow> nat list \<Rightarrow> 'a list \<Rightarrow> 'b list \<Rightarrow> 'c list" where
  "broadcast_data f [] [] a b = map2 f a b"
| "broadcast_data f (x # xs) (y # ys) a b =
     concat (map (\<lambda>i. broadcast_data f xs ys
                        (row_at (prod_list xs) a (if x = 1 then 0 else i))
                        (row_at (prod_list ys) b (if y = 1 then 0 else i)))
               [0..<bdim x y])"
| "broadcast_data f xs ys a b = []"

definition tbinop :: "('a \<Rightarrow> 'b \<Rightarrow> 'c) \<Rightarrow> 'a tensor \<Rightarrow> 'b tensor \<Rightarrow> error + 'c tensor" where
  "tbinop f a b =
     (let n = max (length (shape a)) (length (shape b));
          sa = pad_shape n (shape a);
          sb = pad_shape n (shape b)
      in ebind (broadcast_shape sa sb)
           (\<lambda>s. Inr \<lparr> shape = s, data = broadcast_data f sa sb (data a) (data b) \<rparr>))"

text \<open>\<open>a.add_(b)\<close>: the sum is written into \<open>a\<close>, so it must have the shape of \<open>a\<close>.\<close>

definition tadd_inplace :: "real tensor \<Rightarrow> real tensor \<Rightarrow> error + real tensor" where
  "tadd_inplace a b =
     ebind (tbinop (+) a b) (\<lambda>r. if shape r = shape a then Inr r else Inl ShapeError)"

text \<open>
  \<open>nn.Linear(in_features, out_features, bias=False)\<close> applied to a tensor: every row
  along the last axis is multiplied with the weight matrix, given by its
  \<open>out_features\<close> rows.
\<close>

record linear =
  in_features :: nat
  out_features :: nat
  weight :: "real list list"

definition wf_linear :: "linear \<Rightarrow> bool" where
  "wf_linear L = (length (weight L) = out_features L
                  \<and> list_all (\<lambda>w. length w = in_features L) (weight L))"

definition Linear_forward :: "linear \<Rightarrow> real tensor \<Rightarrow> error + real tensor" where
  "Linear_forward L x =
     (if shape x = [] \<or> last (shape x) \<noteq> in_features L then Inl ShapeError
      else Inr \<lparr> shape = butlast (shape x) @ [out_features L],
                 data = concat (map (\<lambda>row. map (\<lambda>w. dot w row) (weight L)) (rows x)) \<rparr>)"

text \<open>
  A feed-forward module on vectors of width \<open>mlp_hidden_size\<close>. \<open>Qwen2MoeMLP\<close> sets
  up its three projections from and to the hidden size; its \<open>forward\<close> is inherited
  from a class that is not among the sources, so the transform of one vector is a
  parameter. The module is applied to every row along the last axis.
\<close>

record mlp =
  mlp_hidden_size :: nat
  transform :: "real list \<Rightarrow> real list"

definition wf_mlp :: "mlp \<Rightarrow> bool" where
  "wf_mlp m = (\<forall>v. length v = mlp_hidden_size m \<longrightarrow> length (transform m v) = mlp_hidden_size m)"

definition MLP_forward :: "mlp \<Rightarrow> real tensor \<Rightarrow> error + real tensor" where
  "MLP_forward m x =
     (if shape x = [] \<or> last (shape x) \<noteq> mlp_hidden_size m then Inl ShapeError
      else Inr \<lparr> shape = shape x, data = concat (map (transform m) (rows x)) \<rparr>)"

text \<open>All results of a list of computations, or the first error.\<close>

fun sequence :: "(error + 'a) list \<Rightarrow> error + 'a list" where
  "sequence [] = Inr []"
| "sequence (m # ms) = ebind m (\<lambda>x. ebind (sequence ms) (\<lambda>xs. Inr (x # xs)))"

definition vadd :: "real list \<Rightarrow> real list \<Rightarrow> real list" where
  "vadd a b = map2 (+) a b"

definition smult :: "real \<Rightarrow> real list \<Rightarrow> real list" where
  "smult c v = map ((*) c) v"

section \<open>Qwen2MoeNaiveMoe and Qwen2MoeSparseMoeBlock\<close>

text \<open>
  The modules of a \<open>Qwen2MoeSparseMoeBlock\<close> with the configuration values they are
  built from: the gate \<open>Linear(hidden_size, num_experts)\<close>, the \<open>num_experts\<close>
  expert modules of \<open>Qwen2MoeNaiveMoe\<close>, the shared expert and its gate
  \<open>Linear(hidden_size, 1)\<close>.
\<close>

record qwen2moe =
  hidden_size :: nat
  num_experts :: nat
  num_experts_per_tok :: nat
  norm_topk_prob :: bool
  gate_weight :: "real list list"
  experts :: "mlp list"
  shared_expert :: mlp
  shared_expert_gate_weight :: "real list list"

definition gate :: "qwen2moe \<Rightarrow> linear" where
  "gate P = \<lparr> in_features = hidden_size P, out_features = num_experts P, weight = gate_weight P \<rparr>"

definition shared_expert_gate :: "qwen2moe \<Rightarrow> linear" where
  "shared_expert_gate P =
     \<lparr> in_features = hidden_size P, out_features = 1, weight = shared_expert_gate_weight P \<rparr>"

definition wf_qwen2moe :: "qwen2moe \<Rightarrow> bool" where
  "wf_qwen2moe P =
     (wf_linear (gate P) \<and> wf_linear (shared_expert_gate P)
      \<and> length (experts P) = num_experts P
      \<and> list_all (\<lambda>m. wf_mlp m \<and> mlp_hidden_size m = hidden_size P) (experts P)
      \<and> wf_mlp (shared_expert P) \<and> mlp_hidden_size (shared_expert P) = hidden_size P)"

text \<open>
  \<open>torch.where(expert_mask[expert_idx].squeeze(0))\<close>: the pairs \<open>(idx, top_x)\<close> of a
  slot \<open>idx\<close> and a row \<open>top_x\<close> whose slot selects the expert, slot by slot.
\<close>

definition expert_positions :: "nat \<Rightarrow> nat list list \<Rightarrow> nat \<Rightarrow> (nat \<times> nat) list" where
  "expert_positions top_k selected_experts e =
     concat (map (\<lambda>idx. concat (map (\<lambda>top_x.
                if selected_experts ! top_x ! idx = e then [(idx, top_x)] else [])
              [0..<length selected_experts])) [0..<top_k])"

text \<open>\<open>final.index_add_(0, top_x, src)\<close>: row \<open>src[i]\<close> is added to row \<open>top_x[i]\<close>.\<close>

definition index_add :: "real list list \<Rightarrow> nat list \<Rightarrow> real list list \<Rightarrow> real list list" where
  "index_add final top_x src = fold (\<lambda>(r, v) f. f[r := vadd (f ! r) v]) (zip top_x src) final"

text \<open>
  The loop over \<open>expert_hit\<close>. Reading a row of the hidden states that does not
  exist and reading a module the list does not have are errors; the expert module
  checks the width of its input.
\<close>

fun expert_loop ::
  "qwen2moe \<Rightarrow> real list list \<Rightarrow> real list list \<Rightarrow> nat list list \<Rightarrow> nat list
     \<Rightarrow> real list list \<Rightarrow> error + real list list" where
  "expert_loop P x routing_weights selected_experts [] final = Inr final"
| "expert_loop P x routing_weights selected_experts (expert_idx # es) final =
     (let hits = expert_positions (num_experts_per_tok P) selected_experts expert_idx
      in if length (experts P) \<le> expert_idx \<or> list_ex (\<lambda>(idx, top_x). length x \<le> top_x) hits
         then Inl ShapeError
         else
           ebind (MLP_forward (experts P ! expert_idx)
                    \<lparr> shape = [length hits, hidden_size P],
                      data = concat (map (\<lambda>(idx, top_x). x ! top_x) hits) \<rparr>)
             (\<lambda>current.
                expert_loop P x routing_weights selected_experts es
                  (index_add final (map snd hits)
                     (map2 (\<lambda>(idx, top_x) row. smult (routing_weights ! top_x ! idx) row)
                        hits (rows current)))))"

text \<open>
  \<open>Qwen2MoeNaiveMoe.forward\<close>, called by the block on the flattened hidden states
  \<open>[N, hidden]\<close> and the router logits \<open>[N, num_experts]\<close>; on tensors that are
  not two-dimensional the indexing of the loop and the \<open>permute(2, 1, 0)\<close> of the
  mask do not fit. \<open>one_hot\<close> refuses an expert number that is not below
  \<open>num_experts\<close>. The module reshapes the gathered rows to the last axis of the
  hidden states, which the experts then check against the hidden size.
\<close>

definition Qwen2MoeNaiveMoe_forward ::
  "qwen2moe \<Rightarrow> real tensor \<Rightarrow> real tensor \<Rightarrow> error + real tensor" where
  "Qwen2MoeNaiveMoe_forward P hidden_states routing_weights =
     (if length (shape hidden_states) \<noteq> 2 \<or> length (shape routing_weights) \<noteq> 2
      then Inl ShapeError
      else
        ebind (sequence (map (Qwen2Moe_routing (num_experts_per_tok P) (norm_topk_prob P))
                           (rows routing_weights)))
          (\<lambda>routed.
             let weights = map fst routed;
                 selected_experts = map snd routed;
                 x = rows hidden_states;
                 final_hidden_states = map (map (\<lambda>_. 0)) x;
                 expert_hit = filter (\<lambda>e. expert_positions (num_experts_per_tok P)
                                             selected_experts e \<noteq> [])
                                [0..<num_experts P]
             in if list_ex (list_ex (\<lambda>e. num_experts P \<le> e)) selected_experts
                   \<or> (expert_hit \<noteq> [] \<and> last (shape hidden_states) \<noteq> hidden_size P)
                then Inl ShapeError
                else ebind (expert_loop P x weights selected_experts expert_hit
                              final_hidden_states)
                       (\<lambda>final. Inr \<lparr> shape = shape hidden_states, data = concat final \<rparr>)))"

text \<open>
  \<open>Qwen2MoeSparseMoeBlock.forward\<close>, line by line. The first component of the
  result is \<open>final_hidden_states\<close>, the second \<open>router_logits\<close>.
\<close>

definition Qwen2MoeSparseMoeBlock_forward ::
  "qwen2moe \<Rightarrow> real tensor \<Rightarrow> error + (real tensor \<times> real tensor)" where
  "Qwen2MoeSparseMoeBlock_forward P hidden_states0 =
     (case shape hidden_states0 of
        [batch_size, sequence_length, hidden_dim] \<Rightarrow>
          ebind (reshape_infer [] [hidden_dim] hidden_states0) (\<lambda>hidden_states.
          ebind (Linear_forward (gate P) hidden_states) (\<lambda>router_logits.
          ebind (Qwen2MoeNaiveMoe_forward P hidden_states router_logits) (\<lambda>experts_out.
          ebind (reshape [batch_size, sequence_length, hidden_dim] experts_out) (\<lambda>final1.
          ebind (MLP_forward (shared_expert P) hidden_states) (\<lambda>shared_expert_output1.
          ebind (Linear_forward (shared_expert_gate P) hidden_states) (\<lambda>gate_logits.
          ebind (tbinop (*) (tmap sigmoid gate_logits) shared_expert_output1)
            (\<lambda>shared_expert_output.
          ebind (tbinop (+) final1 shared_expert_output) (\<lambda>final2.
          ebind (reshape [batch_size, sequence_length, hidden_dim] final2) (\<lambda>final_hidden_states.
            Inr (final_hidden_states, router_logits))))))))))
      | _ \<Rightarrow> Inl UnpackError)"

section \<open>OpenaiMLP\<close>

text \<open>
  The modules of an \<open>OpenaiMLP\<close>, as \<open>__init__\<close> sets them: \<open>top_k\<close>,
  \<open>hidden_dim\<close>, \<open>num_experts\<close>, \<open>experts\<close> and \<open>router\<close>. The router is
  \<open>Linear(hidden_size, num_local_experts)\<close>. \<open>OpenaiExperts\<close> inherits its
  \<open>forward\<close> from a class that is not among the sources: it is a parameter, one
  transform of a vector per expert, applied to the expert's block of rows.
\<close>

record openai_mlp =
  o_top_k :: nat
  o_hidden_dim :: nat
  o_num_experts :: nat
  router_weight :: "real list list"
  o_experts :: "(real list \<Rightarrow> real list) list"

definition router :: "openai_mlp \<Rightarrow> linear" where
  "router P = \<lparr> in_features = o_hidden_dim P, out_features = o_num_experts P,
               weight = router_weight P \<rparr>"

definition wf_openai_mlp :: "openai_mlp \<Rightarrow> bool" where
  "wf_openai_mlp P =
     (wf_linear (router P) \<and> length (o_experts P) = o_num_experts P
      \<and> list_all (\<lambda>f. \<forall>v. length v = o_hidden_dim P \<longrightarrow> length (f v) = o_hidden_dim P)
           (o_experts P))"

text \<open>
  \<open>self.shared_expert\<close>, which \<open>forward\<close> reads in line 74. \<open>__init__\<close> does not
  set an attribute of that name and the class has none, so the lookup on the module
  raises \<open>AttributeError\<close>.
\<close>

definition o_shared_expert :: "openai_mlp \<Rightarrow> error + mlp" where
  "o_shared_expert P = Inl AttributeError"

text \<open>\<open>t.transpose(0, 1)\<close> of a matrix given by its rows, of width \<open>ncols\<close>.\<close>

definition transpose_rows :: "nat \<Rightarrow> 'a list list \<Rightarrow> 'a list list" where
  "transpose_rows ncols rs = map (\<lambda>c. map (\<lambda>row. row ! c) rs) [0..<ncols]"

text \<open>\<open>t.sum(dim=0)\<close>.\<close>

definition sum_dim0 :: "real tensor \<Rightarrow> real tensor" where
  "sum_dim0 t =
     (let m = prod_list (tl (shape t))
      in \<lparr> shape = tl (shape t),
           data = map (\<lambda>i. sum_list (map (\<lambda>e. data t ! (e * m + i)) [0..<hd (shape t)]))
                    [0..<m] \<rparr>)"

text \<open>
  The experts module on the routed input \<open>[num_experts * N, hidden]\<close>: a view as
  \<open>[num_experts, N, hidden]\<close>, the transform of expert \<open>e\<close> on every row of block
  \<open>e\<close>, and a view back to two dimensions.
\<close>

definition OpenaiExperts_forward :: "openai_mlp \<Rightarrow> real tensor \<Rightarrow> error + real tensor" where
  "OpenaiExperts_forward P routed_in =
     ebind (reshape_infer [o_num_experts P] [o_hidden_dim P] routed_in) (\<lambda>v.
       let n = shape v ! 1
       in reshape_infer [] [o_hidden_dim P]
            \<lparr> shape = shape v,
              data = concat (map (\<lambda>i. (o_experts P ! (i div n)) (rows v ! i))
                               [0..<o_num_experts P * n]) \<rparr>)"

text \<open>
  \<open>OpenaiMLP.forward\<close>, line by line. The first component of the result is \<open>out\<close>,
  the second \<open>router_scores\<close>.
\<close>

definition OpenaiMLP_forward ::
  "openai_mlp \<Rightarrow> real tensor \<Rightarrow> error + (real tensor \<times> real tensor)" where
  "OpenaiMLP_forward P hidden_states0 =
     ebind (reshape_infer [] [o_hidden_dim P] hidden_states0) (\<lambda>hidden_states.
     ebind (Linear_forward (router P) hidden_states) (\<lambda>router_logits.
     ebind (sequence (map (Openai_scattered (o_top_k P)) (rows router_logits))) (\<lambda>scattered.
       let n = length scattered;
           router_scores0 = \<lparr> shape = [o_num_experts P, n],
                               data = concat (transpose_rows (o_num_experts P) scattered) \<rparr>;
           router_scores = tmap xsigmoid router_scores0;
           routed_in0 = \<lparr> shape = [o_num_experts P * n, o_hidden_dim P],
                           data = concat (replicate (o_num_experts P) (data hidden_states)) \<rparr>
       in
     ebind (reshape_infer [] [1] router_scores) (\<lambda>scores_column.
     ebind (tbinop (*) routed_in0 scores_column) (\<lambda>routed_in.
     ebind (OpenaiExperts_forward P routed_in) (\<lambda>routed_out.
     ebind (o_shared_expert P) (\<lambda>shared_expert_module.
     ebind (MLP_forward shared_expert_module hidden_states) (\<lambda>out.
     ebind (reshape_infer [o_num_experts P] [o_hidden_dim P] routed_out) (\<lambda>routed3.
     ebind (tadd_inplace out (sum_dim0 routed3)) (\<lambda>out'.
       Inr (out', router_scores)))))))))))"

section \<open>Small modules and inputs\<close>

text \<open>
  A \<open>Qwen2MoeSparseMoeBlock\<close> of hidden size 2 with three experts, two of them chosen
  for a vector, and an \<open>OpenaiMLP\<close> of hidden size 2 with two experts, one of them
  chosen; a sequence of two vectors in a batch of one, and the same two vectors as a
  batch of two sequences of one vector.
\<close>

definition example_qwen2moe :: qwen2moe where
  "example_qwen2moe =
     \<lparr> hidden_size = 2, num_experts = 3, num_experts_per_tok = 2, norm_topk_prob = True,
       gate_weight = [[1, 0], [0, 1], [1, 1]],
       experts = [\<lparr> mlp_hidden_size = 2, transform = map ((*) 2) \<rparr>,
                  \<lparr> mlp_hidden_size = 2, transform = map uminus \<rparr>,
                  \<lparr> mlp_hidden_size = 2, transform = rev \<rparr>],
       shared_expert = \<lparr> mlp_hidden_size = 2, transform = map ((*) 3) \<rparr>,
       shared_expert_gate_weight = [[1, 1]] \<rparr>"

definition example_openai_mlp :: openai_mlp where
  "example_openai_mlp =
     \<lparr> o_top_k = 1, o_hidden_dim = 2, o_num_experts = 2,
       router_weight = [[1, 0], [0, 1]],
       o_experts = [map ((*) 2), rev] \<rparr>"

definition example_sequence :: "real tensor" where
  "example_sequence = \<lparr> shape = [1, 2, 2], data = [2, 3, 5, 7] \<rparr>"

definition example_batch :: "real tensor" where
  "example_batch = \<lparr> shape = [2, 1, 2], data = [2, 3, 5, 7] \<rparr>"

text \<open>
  A model directory with one shard, which holds the single tensor \<open>norm.weight\<close>,
  and a target model whose only parameter is \<open>lm_head.weight\<close>; the directory can
  be made and the configuration read.
\<close>

definition example_env :: "nat conversion_env" where
  "example_env =
     \<lparr> makedirs = Inr (), config_from_pretrained = Inr (),
       listdir = Inr [''model.safetensors''],
       safe_load = (\<lambda>files. Inr [(''norm.weight'', \<lparr> shape = [2], data = [5, 6] \<rparr>)]),
       model_params = [''lm_head.weight'' \<mapsto> [2]] \<rparr>"

section \<open>Patterns and templates without the newline\<close>

text \<open>
  No pattern of the script can match a newline and no template writes one; the two
  predicates say so for a pattern atom and a template item.
\<close>

definition nl_free_atom :: "atom \<Rightarrow> bool" where
  "nl_free_atom a = (case a of Lit c \<Rightarrow> c \<noteq> newline | Choice cs \<Rightarrow> newline \<notin> set cs | _ \<Rightarrow> True)"

definition nl_free_item :: "ritem \<Rightarrow> bool" where
  "nl_free_item i = (case i of RLit c \<Rightarrow> c \<noteq> newline | RGroup _ \<Rightarrow> True)"

text \<open>
  A rule of the table is well formed for the line-by-line reading when its pattern is
  not empty and neither the pattern nor the template mentions the newline.
  \<open>matches_no_rule name\<close>: no pattern of the table matches anywhere in \<open>name\<close>.
\<close>

definition template_of :: "ritem list option \<Rightarrow> ritem list" where
  "template_of r = (case r of None \<Rightarrow> [] | Some t \<Rightarrow> t)"

definition rule_ok :: "pattern \<times> ritem list option \<Rightarrow> bool" where
  "rule_ok = (\<lambda>(p, r). p \<noteq> [] \<and> list_all nl_free_atom p \<and> list_all nl_free_item (template_of r))"

definition matches_no_rule :: "string \<Rightarrow> bool" where
  "matches_no_rule name =
     list_all (\<lambda>(p, r). \<not> re_search p name) ORIGINAL_TO_CONVERTED_KEY_MAPPING"

section \<open>Properties\<close>

subsection \<open>Errors and substitution by a literal template\<close>

lemma ebind_Inr [simp]: "ebind (Inr x) f = f x"
  by (simp add: ebind_def)

lemma ebind_Inl [simp]: "ebind (Inl e) f = Inl e"
  by (simp add: ebind_def)

lemma ebind_eq_Inr: "ebind m f = Inr y \<longleftrightarrow> (\<exists>x. m = Inr x \<and> f x = Inr y)"
  by (cases m) simp_all

lemma expand_rlit: "expand (rlit s) gs = Inr s"
  by (induction s) (simp_all add: rlit_def)

lemma re_sub_rlit_total: "\<exists>r. re_sub p (rlit s) x = Inr r"
proof (induction p "rlit s" x rule: re_sub.induct)
  case (1 p)
  then show ?case by (auto simp: expand_rlit split: option.splits)
next
  case (2 p x xs)
  show ?case
  proof (cases "match_here p (x # xs)")
    case None
    with 2(1) show ?thesis by auto
  next
    case (Some a)
    obtain gs r where a: "a = (gs, r)" by (cases a)
    show ?thesis
    proof (cases "length r < length (x # xs)")
      case True
      with 2(2)[OF Some[unfolded a] refl] obtain b where "re_sub p (rlit s) r = Inr b" by auto
      with Some a True show ?thesis by (simp add: expand_rlit)
    next
      case False
      with 2(3)[OF Some[unfolded a] refl] obtain b where "re_sub p (rlit s) xs = Inr b" by auto
      with Some a False show ?thesis by (simp add: expand_rlit)
    qed
  qed
qed

lemma re_sub_rlit_differ:
  assumes "c1 \<noteq> c2"
  shows "re_search p x \<Longrightarrow> re_sub p (rlit (c1 # s1)) x = Inr a \<Longrightarrow>
         re_sub p (rlit (c2 # s2)) x = Inr b \<Longrightarrow> a \<noteq> b"
proof (induction x arbitrary: a b)
  case Nil
  then show ?case using assms by (auto simp: expand_rlit split: option.splits)
next
  case (Cons y ys)
  show ?case
  proof (cases "match_here p (y # ys)")
    case None
    with Cons.prems show ?thesis using Cons.IH by (auto simp: ebind_eq_Inr)
  next
    case (Some m)
    with Cons.prems show ?thesis using assms
      by (cases m) (auto simp: expand_rlit ebind_eq_Inr split: if_splits)
  qed
qed

subsection \<open>Rows, slices and chunks\<close>

lemma concat_row_at: "concat (map (row_at n xs) [0..<R]) = take (R * n) xs"
proof (induction R)
  case 0
  then show ?case by simp
next
  case (Suc R)
  have "take (R * n) xs @ take n (drop (R * n) xs) = take (R * n + n) xs"
    by (simp add: take_add)
  with Suc show ?case by (simp add: row_at_def add.commute)
qed

lemma prod_list_butlast: "s \<noteq> [] \<Longrightarrow> prod_list (butlast s) * last s = (prod_list s :: nat)"
  by (induction s) (auto simp: mult.assoc)

lemma concat_rows:
  assumes "wf_tensor t" "shape t \<noteq> []"
  shows "concat (rows t) = data t"
proof -
  have "length (data t) = prod_list (butlast (shape t)) * last (shape t)"
    using assms prod_list_butlast[of "shape t"] by (simp add: wf_tensor_def)
  then show ?thesis by (simp add: rows_def concat_row_at)
qed

lemma length_rows: "length (rows t) = prod_list (butlast (shape t))"
  by (simp add: rows_def)

lemma length_row_at:
  assumes "length xs = R * n" "r < R"
  shows "length (row_at n xs r) = n"
proof -
  from assms(2) have "Suc r * n \<le> R * n" by (intro mult_le_mono1) simp
  then show ?thesis using assms(1) by (simp add: row_at_def)
qed

lemma length_rows_nth:
  "wf_tensor t \<Longrightarrow> shape t \<noteq> [] \<Longrightarrow> r < prod_list (butlast (shape t)) \<Longrightarrow>
   length (rows t ! r) = last (shape t)"
  using length_row_at[of "data t" "prod_list (butlast (shape t))" "last (shape t)" r]
    prod_list_butlast[of "shape t"]
  by (simp add: rows_def wf_tensor_def)

lemma row_at_concat:
  "\<forall>r \<in> set rs. length r = n \<Longrightarrow> i < length rs \<Longrightarrow> row_at n (concat rs) i = rs ! i"
proof (induction rs arbitrary: i)
  case Nil
  then show ?case by simp
next
  case (Cons a rs)
  show ?case
  proof (cases i)
    case 0
    with Cons.prems show ?thesis by (simp add: row_at_def)
  next
    case (Suc j)
    with Cons.prems have "row_at n (concat rs) j = rs ! j" by (intro Cons.IH) auto
    with Suc Cons.prems show ?thesis by (simp add: row_at_def)
  qed
qed

lemma row_at_narrow:
  assumes "wf_tensor t" "shape t \<noteq> []" "start + len \<le> last (shape t)"
    and "r < prod_list (butlast (shape t))"
  shows "row_at len (data (narrow_last start len t)) r = take len (drop start (rows t ! r))"
proof -
  let ?rs = "map (\<lambda>row. take len (drop start row)) (rows t)"
  have "\<forall>x \<in> set ?rs. length x = len"
  proof
    fix x assume "x \<in> set ?rs"
    then obtain i where "i < length (rows t)" "x = take len (drop start (rows t ! i))"
      by (auto simp: in_set_conv_nth)
    then show "length x = len"
      using assms length_rows_nth[OF assms(1,2)] by (simp add: length_rows)
  qed
  then have "row_at len (concat ?rs) r = ?rs ! r"
    using assms(4) by (intro row_at_concat) (simp_all add: length_rows)
  then show ?thesis using assms(4) by (simp add: narrow_last_def length_rows)
qed

lemma replicate3: "replicate 3 x = [x, x, x]"
  by (simp add: numeral_3_eq_3)

lemma upt3: "[0..<3] = [0, 1, 2]"
  by (simp add: upt_rec numeral_3_eq_3)

lemma upt2: "[0..<2] = [0, 1]"
  by (simp add: upt_rec numeral_2_eq_2)

lemma chunk3_empty_axis:
  "shape t \<noteq> [] \<Longrightarrow> last (shape t) = 0 \<Longrightarrow>
   chunk_last 3 t = Inr [narrow_last 0 0 t, narrow_last 0 0 t, narrow_last 0 0 t]"
  by (simp add: chunk_last_def replicate3)

lemma chunk3_split:
  assumes "shape t \<noteq> []" "0 < last (shape t)"
  shows "chunk_last 3 t = Inr (split_last ((last (shape t) + 2) div 3) t)"
proof -
  have a: "(last (shape t) + 3 - 1) div 3 = (last (shape t) + 2) div 3" by simp
  have "0 < (last (shape t) + 2) div 3" using assms(2) by (simp add: div_greater_zero_iff)
  then show ?thesis unfolding chunk_last_def Let_def a using assms by simp
qed

lemma split_last_three:
  assumes "last (shape t) = s" "c = (s + 2) div 3" "2 * c < s"
  shows "split_last c t = [narrow_last 0 c t, narrow_last c c t, narrow_last (2 * c) (s - 2 * c) t]"
proof -
  have "0 < c" "s \<le> 3 * c" using assms by presburger+
  then have "(s + c - 1) div c = 3" using assms(3) by (intro div_nat_eqI) simp_all
  then have b: "max ((last (shape t) + c - 1) div c) 1 = 3" by (simp add: assms(1))
  have "c - (c * 3 - s) = s - 2 * c" using \<open>s \<le> 3 * c\<close> assms(3) by simp
  then show ?thesis unfolding split_last_def Let_def b upt3 by (simp add: assms(1))
qed

lemma chunk3_three:
  assumes "shape t \<noteq> []" "last (shape t) = s" "c = (s + 2) div 3" "2 * c < s"
  shows "chunk_last 3 t =
         Inr [narrow_last 0 c t, narrow_last c c t, narrow_last (2 * c) (s - 2 * c) t]"
proof -
  have "0 < last (shape t)" using assms by simp
  then show ?thesis
    using chunk3_split[OF assms(1)] split_last_three[OF assms(2,3,4)] assms(2,3) by simp
qed

lemma chunk3_multiple:
  assumes "shape t \<noteq> []" "last (shape t) = 3 * n"
  shows "chunk_last 3 t = Inr [narrow_last 0 n t, narrow_last n n t, narrow_last (2 * n) n t]"
proof (cases "n = 0")
  case True
  with assms chunk3_empty_axis[of t] show ?thesis by simp
next
  case False
  have "n = (3 * n + 2) div 3" by simp
  moreover have "2 * n < 3 * n" using False by simp
  ultimately show ?thesis using chunk3_three[OF assms(1,2), of n] by simp
qed

lemma chunk3_one: "shape t \<noteq> [] \<Longrightarrow> last (shape t) = 1 \<Longrightarrow> chunk_last 3 t = Inr [narrow_last 0 1 t]"
  by (simp add: chunk_last_def split_last_def)

lemma chunk3_two:
  "shape t \<noteq> [] \<Longrightarrow> last (shape t) = 2 \<Longrightarrow> chunk_last 3 t = Inr [narrow_last 0 1 t, narrow_last 1 1 t]"
  by (simp add: chunk_last_def split_last_def upt2)

lemma chunk3_four:
  "shape t \<noteq> [] \<Longrightarrow> last (shape t) = 4 \<Longrightarrow> chunk_last 3 t = Inr [narrow_last 0 2 t, narrow_last 2 2 t]"
  by (simp add: chunk_last_def split_last_def upt2)

lemma shape_narrow_last: "shape (narrow_last start len t) = butlast (shape t) @ [len]"
  by (simp add: narrow_last_def)

lemma last_size_narrow_last: "last_size (narrow_last start len t) = len"
  by (simp add: narrow_last_def last_size_def)

lemma cat_three_rows:
  assumes "wf_tensor t" "shape t \<noteq> []" "last (shape t) = a + b + c"
  shows "cat_last [narrow_last 0 a t, narrow_last a b t, narrow_last (a + b) c t] = t"
proof -
  let ?R = "prod_list (butlast (shape t))"
  have row: "row_at a (data (narrow_last 0 a t)) r @ row_at b (data (narrow_last a b t)) r
        @ row_at c (data (narrow_last (a + b) c t)) r = rows t ! r" if "r < ?R" for r
  proof -
    have len: "length (rows t ! r) = a + b + c"
      using length_rows_nth[OF assms(1,2) that] assms(3) by simp
    have "take a (rows t ! r) @ take b (drop a (rows t ! r)) @ take c (drop (a + b) (rows t ! r))
          = rows t ! r"
      using len by (metis add.commute append_take_drop_id drop_drop length_drop
          add_diff_cancel_left' order_refl take_all)
    then show ?thesis
      using row_at_narrow[OF assms(1,2) _ that, of 0 a] row_at_narrow[OF assms(1,2) _ that, of a b]
        row_at_narrow[OF assms(1,2) _ that, of "a + b" c] assms(3) by simp
  qed
  have eq: "map (\<lambda>r. row_at a (data (narrow_last 0 a t)) r @ row_at b (data (narrow_last a b t)) r
        @ row_at c (data (narrow_last (a + b) c t)) r) [0..<?R] = map (\<lambda>r. rows t ! r) [0..<?R]"
    by (rule map_cong) (simp_all add: row)
  have "data (cat_last [narrow_last 0 a t, narrow_last a b t, narrow_last (a + b) c t])
        = concat (map (\<lambda>r. row_at a (data (narrow_last 0 a t)) r
            @ row_at b (data (narrow_last a b t)) r
            @ row_at c (data (narrow_last (a + b) c t)) r) [0..<?R])"
    by (simp add: cat_last_def shape_narrow_last last_size_narrow_last)
  also have "\<dots> = concat (map (\<lambda>r. rows t ! r) [0..<?R])"
    by (simp only: eq)
  also have "map (\<lambda>r. rows t ! r) [0..<?R] = rows t"
    by (metis length_rows map_nth)
  finally have d: "data (cat_last [narrow_last 0 a t, narrow_last a b t, narrow_last (a + b) c t]) = data t"
    using concat_rows[OF assms(1,2)] by simp
  have "shape (cat_last [narrow_last 0 a t, narrow_last a b t, narrow_last (a + b) c t]) = shape t"
    using assms(2,3) append_butlast_last_id[of "shape t"]
    by (simp add: cat_last_def shape_narrow_last last_size_narrow_last add.assoc)
  with d show ?thesis by simp
qed

lemma qkv_unpack_multiple:
  assumes "shape t \<noteq> []" "last_size t = 3 * n"
  shows "qkv_unpack t = Inr (narrow_last 0 n t, narrow_last n n t, narrow_last (2 * n) n t)"
  using chunk3_multiple[of t n] assms by (simp add: qkv_unpack_def last_size_def)

lemma dom_neq_singleton: "m k = Some v \<Longrightarrow> k \<noteq> k' \<Longrightarrow> dom m \<noteq> {k'}"
  by auto

subsection \<open>Substitution on the joined text acts line by line\<close>

lemma not_digit_newline: "\<not> is_digit newline"
  by (simp add: is_digit_def newline_def)

lemma takeWhile_digit_line:
  "newline \<notin> set l \<Longrightarrow> takeWhile is_digit (l @ newline # rest) = takeWhile is_digit l"
  by (induction l) (simp_all add: not_digit_newline)

lemma try_digits_append:
  assumes "\<And>k. 0 < k \<Longrightarrow> k \<le> n \<Longrightarrow> f' k = map_option (\<lambda>(gs, r). (gs, r @ suf)) (f k)"
    and "n \<le> length l"
  shows "try_digits f' (l @ suf) n = map_option (\<lambda>(gs, r). (gs, r @ suf)) (try_digits f l n)"
  using assms
proof (induction n)
  case 0
  then show ?case by simp
next
  case (Suc n)
  have "f' (Suc n) = map_option (\<lambda>(gs, r). (gs, r @ suf)) (f (Suc n))"
    by (rule Suc.prems(1)) simp_all
  moreover have "try_digits f' (l @ suf) n = map_option (\<lambda>(gs, r). (gs, r @ suf)) (try_digits f l n)"
    using Suc.prems by (intro Suc.IH) simp_all
  ultimately show ?case using Suc.prems(2) by (auto split: option.splits)
qed

lemma match_here_line:
  "\<forall>a \<in> set p. nl_free_atom a \<Longrightarrow> newline \<notin> set l \<Longrightarrow>
   match_here p (l @ newline # rest)
     = map_option (\<lambda>(gs, r). (gs, r @ newline # rest)) (match_here p l)"
proof (induction p arbitrary: l)
  case Nil
  then show ?case by simp
next
  case (Cons a p)
  have IH: "\<And>l'. newline \<notin> set l' \<Longrightarrow> match_here p (l' @ newline # rest)
      = map_option (\<lambda>(gs, r). (gs, r @ newline # rest)) (match_here p l')"
    using Cons.IH Cons.prems(1) by simp
  show ?case
  proof (cases a)
    case (Lit c)
    with Cons.prems IH show ?thesis by (cases l) (auto simp: nl_free_atom_def)
  next
    case AnyChar
    with Cons.prems IH show ?thesis by (cases l) auto
  next
    case (Choice cs)
    with Cons.prems IH show ?thesis
      by (cases l) (auto simp: nl_free_atom_def split: option.splits)
  next
    case Digits
    let ?n = "length (takeWhile is_digit l)"
    have "try_digits (\<lambda>k. match_here p (drop k (l @ newline # rest))) (l @ newline # rest) ?n
        = map_option (\<lambda>(gs, r). (gs, r @ newline # rest))
            (try_digits (\<lambda>k. match_here p (drop k l)) l ?n)"
    proof (rule try_digits_append)
      fix k assume "0 < k" "k \<le> ?n"
      then have "k \<le> length l" using length_takeWhile_le[of is_digit l] by simp
      then have "drop k (l @ newline # rest) = drop k l @ newline # rest" by simp
      moreover have "newline \<notin> set (drop k l)" using Cons.prems(2) by (meson in_set_dropD)
      ultimately show "match_here p (drop k (l @ newline # rest))
          = map_option (\<lambda>(gs, r). (gs, r @ newline # rest)) (match_here p (drop k l))"
        using IH by simp
    next
      show "?n \<le> length l" by (rule length_takeWhile_le)
    qed
    with Digits Cons.prems(2) show ?thesis by (simp add: takeWhile_digit_line)
  qed
qed

lemma try_digits_Some:
  "try_digits f s n = Some (gs', r) \<Longrightarrow>
   \<exists>k gs. 0 < k \<and> k \<le> n \<and> f k = Some (gs, r) \<and> gs' = take k s # gs"
proof (induction n)
  case 0
  then show ?case by simp
next
  case (Suc n)
  show ?case
  proof (cases "f (Suc n)")
    case None
    with Suc obtain k gs where "0 < k" "k \<le> n" "f k = Some (gs, r)" "gs' = take k s # gs"
      by auto
    then show ?thesis by (intro exI[of _ k] exI[of _ gs]) simp
  next
    case (Some a)
    with Suc.prems show ?thesis by (cases a) (intro exI[of _ "Suc n"], auto)
  qed
qed

lemma match_here_suffix:
  "match_here p s = Some (gs, r) \<Longrightarrow>
   \<exists>pre. s = pre @ r \<and> length p \<le> length pre \<and> (\<forall>g \<in> set gs. set g \<subseteq> set s)"
proof (induction p arbitrary: s gs r)
  case Nil
  then show ?case by simp
next
  case (Cons a p)
  show ?case
  proof (cases a)
    case (Lit c)
    with Cons.prems obtain x xs where s: "s = x # xs" "match_here p xs = Some (gs, r)"
      by (cases s) (auto split: if_splits)
    from Cons.IH[OF s(2)] obtain pre where "xs = pre @ r" "length p \<le> length pre"
      "\<forall>g \<in> set gs. set g \<subseteq> set xs" by blast
    then show ?thesis using s(1) by (intro exI[of _ "x # pre"]) auto
  next
    case AnyChar
    with Cons.prems obtain x xs where s: "s = x # xs" "match_here p xs = Some (gs, r)"
      by (cases s) (auto split: if_splits)
    from Cons.IH[OF s(2)] obtain pre where "xs = pre @ r" "length p \<le> length pre"
      "\<forall>g \<in> set gs. set g \<subseteq> set xs" by blast
    then show ?thesis using s(1) by (intro exI[of _ "x # pre"]) auto
  next
    case (Choice cs)
    with Cons.prems obtain x xs gs0 where s: "s = x # xs" "match_here p xs = Some (gs0, r)"
      "gs = [x] # gs0"
      by (cases s) (auto split: if_splits option.splits)
    from Cons.IH[OF s(2)] obtain pre where "xs = pre @ r" "length p \<le> length pre"
      "\<forall>g \<in> set gs0. set g \<subseteq> set xs" by blast
    then show ?thesis using s(1,3) by (intro exI[of _ "x # pre"]) auto
  next
    case Digits
    with Cons.prems have "try_digits (\<lambda>k. match_here p (drop k s)) s
        (length (takeWhile is_digit s)) = Some (gs, r)" by simp
    from try_digits_Some[OF this] obtain k gs0 where k: "0 < k"
      "k \<le> length (takeWhile is_digit s)" "match_here p (drop k s) = Some (gs0, r)"
      "gs = take k s # gs0" by blast
    from Cons.IH[OF k(3)] obtain pre where pre: "drop k s = pre @ r" "length p \<le> length pre"
      "\<forall>g \<in> set gs0. set g \<subseteq> set (drop k s)" by blast
    have kl: "k \<le> length s" using k(2) length_takeWhile_le[of is_digit s] by simp
    have "s = (take k s @ pre) @ r" using pre(1) by (metis append.assoc append_take_drop_id)
    moreover have "length (a # p) \<le> length (take k s @ pre)" using k(1) kl pre(2) by simp
    moreover have "\<forall>g \<in> set gs. set g \<subseteq> set s"
      using k(4) pre(3) by (auto dest: in_set_takeD in_set_dropD)
    ultimately show ?thesis by blast
  qed
qed

lemma match_here_Nil: "p \<noteq> [] \<Longrightarrow> match_here p [] = None"
proof (rule ccontr)
  assume "p \<noteq> []" "match_here p [] \<noteq> None"
  then obtain gs r where "match_here p [] = Some (gs, r)" by auto
  from match_here_suffix[OF this] \<open>p \<noteq> []\<close> show False by auto
qed

lemma re_sub_unmatched: "\<not> re_search p s \<Longrightarrow> re_sub p t s = Inr s"
  by (induction s) (auto split: option.splits)

lemma re_search_line:
  assumes "\<forall>a \<in> set p. nl_free_atom a" "p \<noteq> []"
  shows "newline \<notin> set l \<Longrightarrow>
         re_search p (l @ newline # rest) = (re_search p l \<or> re_search p rest)"
proof (induction l)
  case Nil
  have "match_here p (newline # rest) = None"
    using match_here_line[OF assms(1), of "[]" rest] match_here_Nil[OF assms(2)] by simp
  then show ?case using match_here_Nil[OF assms(2)] by simp
next
  case (Cons x xs)
  have "(match_here p ((x # xs) @ newline # rest) \<noteq> None) = (match_here p (x # xs) \<noteq> None)"
    using match_here_line[OF assms(1) Cons.prems, of rest] by simp
  then show ?case using Cons by auto
qed

lemma ebind_assoc: "ebind (ebind m f) g = ebind m (\<lambda>x. ebind (f x) g)"
  by (cases m) simp_all

lemma re_sub_line:
  assumes "\<forall>a \<in> set p. nl_free_atom a" "p \<noteq> []"
  shows "newline \<notin> set l \<Longrightarrow>
         re_sub p t (l @ newline # rest)
           = ebind (re_sub p t l) (\<lambda>a. ebind (re_sub p t rest) (\<lambda>b. Inr (a @ newline # b)))"
proof (induction l rule: length_induct)
  case (1 l)
  show ?case
  proof (cases l)
    case Nil
    have "match_here p (newline # rest) = None"
      using match_here_line[OF assms(1), of "[]" rest] match_here_Nil[OF assms(2)] by simp
    then show ?thesis using Nil match_here_Nil[OF assms(2)] by simp
  next
    case (Cons x xs)
    have ml: "match_here p (l @ newline # rest)
        = map_option (\<lambda>(gs, r). (gs, r @ newline # rest)) (match_here p l)"
      using match_here_line[OF assms(1) "1.prems"] .
    show ?thesis
    proof (cases "match_here p l")
      case None
      have "newline \<notin> set xs" using "1.prems" Cons by simp
      then have "re_sub p t (xs @ newline # rest)
          = ebind (re_sub p t xs) (\<lambda>a. ebind (re_sub p t rest) (\<lambda>b. Inr (a @ newline # b)))"
        using "1.IH" Cons by simp
      then show ?thesis using None ml Cons by (simp add: ebind_assoc)
    next
      case (Some m)
      obtain gs r where m: "m = (gs, r)" by (cases m)
      from match_here_suffix[OF Some[unfolded m]] obtain pre where
        pre: "l = pre @ r" "length p \<le> length pre" by blast
      have lt: "length r < length l" using pre assms(2) by (cases p) auto
      have "newline \<notin> set r" using pre(1) "1.prems" by auto
      with "1.IH" lt have "re_sub p t (r @ newline # rest)
          = ebind (re_sub p t r) (\<lambda>a. ebind (re_sub p t rest) (\<lambda>b. Inr (a @ newline # b)))"
        by simp
      then show ?thesis using Some m ml Cons lt by (simp add: ebind_assoc)
    qed
  qed
qed

lemma expand_nl_free:
  "\<forall>i \<in> set t. nl_free_item i \<Longrightarrow> \<forall>g \<in> set gs. newline \<notin> set g \<Longrightarrow>
   expand t gs = Inr r \<Longrightarrow> newline \<notin> set r"
proof (induction t arbitrary: r)
  case Nil
  then show ?case by simp
next
  case (Cons i t)
  then show ?case
    by (cases i) (auto simp: ebind_eq_Inr nl_free_item_def split: if_splits)
qed

lemma re_sub_nl_free:
  assumes "\<forall>i \<in> set t. nl_free_item i"
  shows "newline \<notin> set l \<Longrightarrow> re_sub p t l = Inr l' \<Longrightarrow> newline \<notin> set l'"
proof (induction l arbitrary: l' rule: length_induct)
  case (1 l)
  show ?case
  proof (cases "match_here p l")
    case None
    show ?thesis
    proof (cases l)
      case Nil
      with None "1.prems" show ?thesis by simp
    next
      case (Cons x xs)
      with None "1.prems" obtain r where "re_sub p t xs = Inr r" "l' = x # r"
        by (auto simp: ebind_eq_Inr)
      moreover from this "1.IH" Cons "1.prems"(1) have "newline \<notin> set r" by auto
      ultimately show ?thesis using Cons "1.prems"(1) by simp
    qed
  next
    case (Some m)
    obtain gs r where m: "m = (gs, r)" by (cases m)
    from match_here_suffix[OF Some[unfolded m]] obtain pre where
      pre: "l = pre @ r" "\<forall>g \<in> set gs. set g \<subseteq> set l" by blast
    have g: "\<forall>g \<in> set gs. newline \<notin> set g" using pre(2) "1.prems"(1) by blast
    have rfree: "newline \<notin> set r" using pre(1) "1.prems"(1) by simp
    show ?thesis
    proof (cases l)
      case Nil
      with Some m "1.prems" have "expand t gs = Inr l'" by simp
      from expand_nl_free[OF assms g this] show ?thesis .
    next
      case (Cons x xs)
      show ?thesis
      proof (cases "length r < length l")
        case True
        with Some m Cons "1.prems"(2) obtain a b where
          ab: "expand t gs = Inr a" "re_sub p t r = Inr b" "l' = a @ b"
          by (auto simp: ebind_eq_Inr)
        have "newline \<notin> set b" using "1.IH" True rfree ab(2) by blast
        with expand_nl_free[OF assms g ab(1)] ab(3) show ?thesis by simp
      next
        case False
        with Some m Cons "1.prems"(2) obtain a b where
          ab: "expand t gs = Inr a" "re_sub p t xs = Inr b" "l' = a @ x # b"
          by (auto simp: ebind_eq_Inr)
        have "newline \<notin> set b" using "1.IH" Cons "1.prems"(1) ab(2) by auto
        with expand_nl_free[OF assms g ab(1)] ab(3) Cons "1.prems"(1) show ?thesis by simp
      qed
    qed
  qed
qed

lemma join_lines_Cons: "ls \<noteq> [] \<Longrightarrow> join_lines (l # ls) = l @ newline # join_lines ls"
  by (cases ls) simp_all

lemma split_lines_nonempty: "split_lines s \<noteq> []"
  by (induction s) (auto split: list.splits)

lemma split_lines_append: "split_lines (a @ newline # b) = split_lines a @ split_lines b"
proof (induction a)
  case Nil
  then show ?case by simp
next
  case (Cons c cs)
  then show ?case using split_lines_nonempty[of cs] by (cases "split_lines cs") auto
qed

lemma split_lines_nl_free: "l \<in> set (split_lines s) \<Longrightarrow> newline \<notin> set l"
proof (induction s arbitrary: l)
  case Nil
  then show ?case by simp
next
  case (Cons c cs)
  obtain h t where ht: "split_lines cs = h # t"
    using split_lines_nonempty[of cs] by (cases "split_lines cs") auto
  with Cons show ?case by (auto split: if_splits)
qed

lemma split_lines_one: "newline \<notin> set l \<Longrightarrow> split_lines l = [l]"
  by (induction l) (auto split: list.splits)

lemma join_split: "join_lines (split_lines s) = s"
proof (induction s)
  case Nil
  then show ?case by simp
next
  case (Cons c cs)
  obtain h t where ht: "split_lines cs = h # t"
    using split_lines_nonempty[of cs] by (cases "split_lines cs") auto
  show ?case
  proof (cases "c = newline")
    case True
    with Cons ht show ?thesis by (simp add: join_lines_Cons)
  next
    case False
    with Cons ht show ?thesis by (cases t) auto
  qed
qed

lemma split_join:
  "ls \<noteq> [] \<Longrightarrow> \<forall>l \<in> set ls. newline \<notin> set l \<Longrightarrow> split_lines (join_lines ls) = ls"
proof (induction ls rule: join_lines.induct)
  case 1
  then show ?case by simp
next
  case (2 l)
  then show ?case by (simp add: split_lines_one)
next
  case (3 l l' ls)
  then show ?case by (simp add: split_lines_append split_lines_one)
qed

lemma split_join_concat:
  "keys \<noteq> [] \<Longrightarrow> split_lines (join_lines keys) = concat (map split_lines keys)"
proof (induction keys rule: join_lines.induct)
  case 1
  then show ?case by simp
next
  case (2 l)
  then show ?case by simp
next
  case (3 l l' ls)
  then show ?case by (simp add: split_lines_append)
qed

lemma re_search_join:
  assumes "\<forall>a \<in> set p. nl_free_atom a" "p \<noteq> []"
  shows "\<forall>l \<in> set ls. newline \<notin> set l \<Longrightarrow>
         re_search p (join_lines ls) = (\<exists>l \<in> set ls. re_search p l)"
proof (induction ls rule: join_lines.induct)
  case 1
  then show ?case using match_here_Nil[OF assms(2)] by simp
next
  case (2 l)
  then show ?case by simp
next
  case (3 l l' ls)
  then show ?case using re_search_line[OF assms, of l "join_lines (l' # ls)"] by simp
qed

lemma re_sub_join:
  assumes "\<forall>a \<in> set p. nl_free_atom a" "p \<noteq> []"
  shows "\<forall>l \<in> set ls. newline \<notin> set l \<Longrightarrow> re_sub p t (join_lines ls) = Inr new \<Longrightarrow>
         \<exists>ls'. new = join_lines ls' \<and> list_all2 (\<lambda>l l'. re_sub p t l = Inr l') ls ls'"
proof (induction ls arbitrary: new rule: join_lines.induct)
  case 1
  then show ?case using match_here_Nil[OF assms(2)] by simp
next
  case (2 l)
  then show ?case by (intro exI[of _ "[new]"]) simp
next
  case (3 l l' ls)
  have "ebind (re_sub p t l)
          (\<lambda>a. ebind (re_sub p t (join_lines (l' # ls))) (\<lambda>b. Inr (a @ newline # b))) = Inr new"
    using re_sub_line[OF assms, of l t "join_lines (l' # ls)"] "3.prems" by simp
  then obtain a b where ab: "re_sub p t l = Inr a" "re_sub p t (join_lines (l' # ls)) = Inr b"
    "new = a @ newline # b"
    by (auto simp: ebind_eq_Inr)
  from "3.IH"[OF _ ab(2)] "3.prems"(1) obtain ls' where
    ls': "b = join_lines ls'" "list_all2 (\<lambda>l l'. re_sub p t l = Inr l') (l' # ls) ls'" by auto
  then have "ls' \<noteq> []" by auto
  then have "new = join_lines (a # ls')" using ab(3) ls'(1) by (simp add: join_lines_Cons)
  moreover have "list_all2 (\<lambda>l l'. re_sub p t l = Inr l') (l # l' # ls) (a # ls')"
    using ab(1) ls'(2) by simp
  ultimately show ?case by blast
qed

lemma apply_rules_Cons:
  "apply_rules ((p, r) # rs) text = ebind (re_sub p (template_of r) text) (apply_rules rs)"
  by (cases r) (simp_all add: template_of_def)

lemma apply_rules_join:
  "list_all rule_ok rs \<Longrightarrow> \<forall>l \<in> set ls. newline \<notin> set l \<Longrightarrow>
   apply_rules rs (join_lines ls) = Inr new \<Longrightarrow>
   \<exists>ls'. new = join_lines ls' \<and> list_all2 (\<lambda>l l'. apply_rules rs l = Inr l') ls ls'
         \<and> (\<forall>l' \<in> set ls'. newline \<notin> set l')"
proof (induction rs arbitrary: ls new)
  case Nil
  then show ?case by (intro exI[of _ ls]) (simp add: list_all2_same)
next
  case (Cons rule rs)
  obtain p r where rule: "rule = (p, r)" by (cases rule)
  let ?t = "template_of r"
  from Cons.prems(1) rule have ok: "\<forall>a \<in> set p. nl_free_atom a" "p \<noteq> []"
    "\<forall>i \<in> set ?t. nl_free_item i" "list_all rule_ok rs"
    by (simp_all add: rule_ok_def list_all_iff)
  from Cons.prems(3) rule obtain mid where
    mid: "re_sub p ?t (join_lines ls) = Inr mid" "apply_rules rs mid = Inr new"
    by (auto simp: apply_rules_Cons ebind_eq_Inr)
  from re_sub_join[OF ok(1,2) Cons.prems(2) mid(1)] obtain ls1 where
    ls1: "mid = join_lines ls1" "list_all2 (\<lambda>l l'. re_sub p ?t l = Inr l') ls ls1" by blast
  have free1: "\<forall>l \<in> set ls1. newline \<notin> set l"
  proof
    fix l1 assume "l1 \<in> set ls1"
    then obtain i where i: "i < length ls1" "l1 = ls1 ! i" by (auto simp: in_set_conv_nth)
    with ls1(2) have "re_sub p ?t (ls ! i) = Inr l1" "ls ! i \<in> set ls"
      by (auto simp: list_all2_conv_all_nth)
    with re_sub_nl_free[OF ok(3)] Cons.prems(2) show "newline \<notin> set l1" by blast
  qed
  from Cons.IH[OF ok(4) free1] mid(2) ls1(1) obtain ls' where
    ls': "new = join_lines ls'" "list_all2 (\<lambda>l l'. apply_rules rs l = Inr l') ls1 ls'"
    "\<forall>l' \<in> set ls'. newline \<notin> set l'" by blast
  have "list_all2 (\<lambda>l l'. apply_rules (rule # rs) l = Inr l') ls ls'"
    using ls1(2) ls'(2) unfolding rule
    by (auto simp: list_all2_conv_all_nth apply_rules_Cons)
  with ls'(1,3) show ?case by blast
qed

lemma table_ok: "list_all rule_ok ORIGINAL_TO_CONVERTED_KEY_MAPPING"
  by code_simp

lemma dict_of_map_of: "dict_of ps = map_of (rev ps)"
proof (induction ps rule: rev_induct)
  case Nil
  then show ?case by (simp add: dict_of_def)
next
  case (snoc a ps)
  obtain k v where a: "a = (k, v)" by (cases a)
  have "dict_of (ps @ [a]) = (dict_of ps)(k \<mapsto> v)" by (simp add: dict_of_def a)
  with snoc a show ?case by simp
qed

lemma dict_of_zip_Some:
  assumes "dict_of (zip ks vs) k = Some v"
  shows "\<exists>i. i < length ks \<and> i < length vs \<and> ks ! i = k \<and> vs ! i = v"
proof -
  from assms have "(k, v) \<in> set (zip ks vs)"
    by (auto simp: dict_of_map_of dest: map_of_SomeD)
  then show ?thesis by (auto simp: in_set_zip)
qed

lemma dict_of_zip_dom:
  assumes "length ks = length vs" "k \<in> set ks"
  shows "dict_of (zip ks vs) k \<noteq> None"
proof -
  have "map fst (zip ks vs) = ks" using assms(1) by (rule map_fst_zip)
  then have "fst ` set (zip ks vs) = set ks" by (metis set_map)
  then have "k \<in> fst ` set (rev (zip ks vs))" using assms(2) by simp
  then show ?thesis unfolding dict_of_map_of map_of_eq_None_iff by blast
qed

lemma apply_rules_unmatched:
  "list_all (\<lambda>(p, r). \<not> re_search p s) rs \<Longrightarrow> apply_rules rs s = Inr s"
proof (induction rs)
  case Nil
  then show ?case by simp
next
  case (Cons rule rs)
  then show ?case by (cases rule) (simp add: apply_rules_Cons re_sub_unmatched)
qed

lemma re_search_split_lines:
  assumes "\<forall>a \<in> set p. nl_free_atom a" "p \<noteq> []"
  shows "re_search p s = (\<exists>l \<in> set (split_lines s). re_search p l)"
  using re_search_join[OF assms, of "split_lines s"] split_lines_nl_free[of _ s]
  by (simp add: join_split)

lemma unmatched_keys_unmatched_text:
  assumes "\<forall>a \<in> set p. nl_free_atom a" "p \<noteq> []"
    and "\<forall>k \<in> set keys. \<not> re_search p k"
  shows "\<not> re_search p (join_lines keys)"
proof (cases "keys = []")
  case True
  then show ?thesis using match_here_Nil[OF assms(2)] by simp
next
  case False
  have "re_search p (join_lines keys) = (\<exists>l \<in> set (split_lines (join_lines keys)). re_search p l)"
    by (rule re_search_split_lines[OF assms(1,2)])
  also have "\<dots> = (\<exists>k \<in> set keys. \<exists>l \<in> set (split_lines k). re_search p l)"
    by (auto simp: split_join_concat[OF False])
  also have "\<dots> = (\<exists>k \<in> set keys. re_search p k)"
    by (simp only: re_search_split_lines[OF assms(1,2), symmetric])
  finally show ?thesis using assms(3) by simp
qed

subsection \<open>Softmax, top-k and scatter\<close>

lemma sigmoid_pos: "0 < sigmoid x"
  by (simp add: sigmoid_def add_pos_pos)

lemma sum_exp_nonneg: "0 \<le> sum_list (map exp (xs :: real list))"
  by (induction xs) simp_all

lemma sum_exp_pos: "xs \<noteq> [] \<Longrightarrow> 0 < sum_list (map exp (xs :: real list))"
proof (cases xs)
  case Nil
  then show "xs \<noteq> [] \<Longrightarrow> ?thesis" by simp
next
  case (Cons a ys)
  have "0 < exp a + sum_list (map exp ys)"
    using sum_exp_nonneg[of ys] exp_gt_zero[of a] by linarith
  with Cons show ?thesis by simp
qed

lemma softmax_pos: "x \<in> set (softmax xs) \<Longrightarrow> 0 < x"
proof -
  assume "x \<in> set (softmax xs)"
  then obtain y where "y \<in> set xs" "x = exp y / sum_list (map exp xs)"
    by (auto simp: softmax_def)
  moreover from this have "xs \<noteq> []" by auto
  ultimately show ?thesis using sum_exp_pos[of xs] by simp
qed

lemma length_softmax: "length (softmax xs) = length xs"
  by (simp add: softmax_def)

lemma softmax_nth: "i < length xs \<Longrightarrow> softmax xs ! i = exp (xs ! i) / sum_list (map exp xs)"
  by (simp add: softmax_def)

lemma sum_list_divide: "sum_list (map (\<lambda>w. w / c) ws) = sum_list ws / (c :: real)"
  by (induction ws) (simp_all add: add_divide_distrib)

text \<open>The ranking of \<open>topk\<close>.\<close>

lemma topk_props:
  assumes "k \<le> length xs"
  shows "\<exists>v idx. topk k xs = Inr (v, idx) \<and> length v = k \<and> length idx = k \<and> distinct idx
           \<and> (\<forall>j < k. idx ! j < length xs \<and> v ! j = xs ! (idx ! j))
           \<and> (\<forall>j < k. \<forall>i < length xs. i \<notin> set idx \<longrightarrow> xs ! i \<le> v ! j)"
proof -
  let ?ps = "zip xs [0..<length xs]"
  let ?f = "\<lambda>(v :: real, i :: nat). - v"
  let ?l = "sort_key ?f ?ps"
  let ?r = "take k ?l"
  have len: "length ?l = length xs" by simp
  have lr: "length ?r = k" using assms by simp
  have mem: "\<And>p. p \<in> set ?l \<Longrightarrow> snd p < length xs \<and> fst p = xs ! snd p"
    by (auto simp: in_set_zip)
  have "distinct (map snd ?ps)" by simp
  then have "distinct ?ps \<and> inj_on snd (set ?ps)" by (simp only: distinct_map)
  then have "distinct ?l \<and> inj_on snd (set ?l)" by (simp only: distinct_sort set_sort)
  then have "distinct (map snd ?l)" by (simp only: distinct_map)
  then have d: "distinct (map snd ?r)" by (simp add: take_map[symmetric])
  have nth: "snd (?r ! j) < length xs \<and> fst (?r ! j) = xs ! snd (?r ! j)" if "j < k" for j
  proof -
    have "?r ! j \<in> set ?l" using that lr by (metis in_set_takeD nth_mem)
    with mem show ?thesis by blast
  qed
  have top: "xs ! i \<le> fst (?r ! j)" if "j < k" "i < length xs" "i \<notin> set (map snd ?r)" for i j
  proof -
    have "(xs ! i, i) \<in> set ?l" using that(2) by (auto simp: in_set_zip)
    then have "\<exists>m < length ?l. ?l ! m = (xs ! i, i)" by (simp only: in_set_conv_nth)
    then obtain m where m: "m < length ?l" "?l ! m = (xs ! i, i)" by blast
    have "k \<le> m"
    proof (rule ccontr)
      assume "\<not> k \<le> m"
      then have "?r ! m = (xs ! i, i)" "m < length ?r" using m lr by simp_all
      then have "i \<in> snd ` set ?r" by (metis nth_mem snd_conv image_eqI)
      with that(3) show False by simp
    qed
    have "sorted (map ?f ?l)" by (rule sorted_sort_key)
    then have "map ?f ?l ! j \<le> map ?f ?l ! m"
      using \<open>k \<le> m\<close> that(1) m(1) by (intro sorted_nth_mono) simp_all
    then have "?f (?l ! j) \<le> ?f (?l ! m)" using that(1) \<open>k \<le> m\<close> m(1) by simp
    moreover have "?r ! j = ?l ! j" using that(1) by simp
    ultimately show ?thesis using m(2) by (simp add: case_prod_beta)
  qed
  have "topk k xs = Inr (map fst ?r, map snd ?r)" using assms by (simp add: topk_def Let_def)
  moreover have "\<forall>j < k. map snd ?r ! j < length xs \<and> map fst ?r ! j = xs ! (map snd ?r ! j)"
  proof (intro allI impI)
    fix j assume "j < k"
    then have "j < length ?r" using lr by simp
    then have "map snd ?r ! j = snd (?r ! j)" "map fst ?r ! j = fst (?r ! j)" by (simp_all only: nth_map)
    with nth[OF \<open>j < k\<close>] show "map snd ?r ! j < length xs \<and> map fst ?r ! j = xs ! (map snd ?r ! j)"
      by simp
  qed
  moreover have "\<forall>j < k. \<forall>i < length xs. i \<notin> set (map snd ?r) \<longrightarrow> xs ! i \<le> map fst ?r ! j"
  proof (intro allI impI)
    fix j i assume a: "j < k" "i < length xs" "i \<notin> set (map snd ?r)"
    then have "j < length ?r" using lr by simp
    then have "map fst ?r ! j = fst (?r ! j)" by (simp only: nth_map)
    with top[OF a] show "xs ! i \<le> map fst ?r ! j" by simp
  qed
  ultimately show ?thesis using d lr by (intro exI[of _ "map fst ?r"] exI[of _ "map snd ?r"]) simp
qed

lemma topk_error: "length xs < k \<Longrightarrow> topk k xs = Inl ShapeError"
  by (simp add: topk_def)

lemma scatter_row_props:
  assumes "distinct index" "length index = length src" "\<forall>i \<in> set index. i < length row"
  shows "length (scatter_row row index src) = length row
       \<and> (\<forall>j < length index. scatter_row row index src ! (index ! j) = src ! j)
       \<and> (\<forall>e. e \<notin> set index \<longrightarrow> scatter_row row index src ! e = row ! e)"
  using assms
proof (induction index arbitrary: src row)
  case Nil
  then show ?case by (simp add: scatter_row_def)
next
  case (Cons i index)
  then obtain s src' where src: "src = s # src'" by (cases src) auto
  let ?row = "row[i := s]"
  have step: "scatter_row row (i # index) src = scatter_row ?row index src'"
    by (simp add: scatter_row_def src)
  have IH: "length (scatter_row ?row index src') = length ?row
       \<and> (\<forall>j < length index. scatter_row ?row index src' ! (index ! j) = src' ! j)
       \<and> (\<forall>e. e \<notin> set index \<longrightarrow> scatter_row ?row index src' ! e = ?row ! e)"
    using Cons.prems src by (intro Cons.IH) auto
  have i: "i \<notin> set index" "i < length row" using Cons.prems by auto
  show ?case unfolding step
  proof (intro conjI allI impI)
    show "length (scatter_row ?row index src') = length row" using IH by simp
  next
    fix j assume "j < length (i # index)"
    then show "scatter_row ?row index src' ! ((i # index) ! j) = src ! j"
      using IH i src by (cases j) auto
  next
    fix e assume "e \<notin> set (i # index)"
    then show "scatter_row ?row index src' ! e = row ! e" using IH by auto
  qed
qed

lemma Openai_router_scores_props:
  assumes "top_k \<le> length logits"
  shows "\<exists>v idx scores. topk top_k logits = Inr (v, idx)
           \<and> Openai_router_scores top_k logits = Inr scores
           \<and> length scores = length logits
           \<and> (\<forall>e < length logits. scores ! e = (if e \<in> set idx then sigmoid (logits ! e) else 0))"
proof -
  from topk_props[OF assms] obtain v idx where
    t: "topk top_k logits = Inr (v, idx)" "length v = top_k" "length idx = top_k" "distinct idx"
      "\<forall>j < top_k. idx ! j < length logits \<and> v ! j = logits ! (idx ! j)" by blast
  let ?row = "replicate (length logits) NegInf"
  let ?sc = "scatter_row ?row idx (map Fin v)"
  have "\<forall>i \<in> set idx. i < length ?row"
    using t(3,5) by (auto simp: in_set_conv_nth)
  from scatter_row_props[OF t(4) _ this, of "map Fin v"] t(2,3)
  have sc: "length ?sc = length logits"
    "\<forall>j < top_k. ?sc ! (idx ! j) = Fin (v ! j)"
    "\<forall>e. e \<notin> set idx \<longrightarrow> ?sc ! e = ?row ! e" by auto
  have val: "map xsigmoid ?sc ! e = (if e \<in> set idx then sigmoid (logits ! e) else 0)"
    if e: "e < length logits" for e
  proof (cases "e \<in> set idx")
    case True
    then obtain j where j: "j < top_k" "idx ! j = e" using t(3) by (auto simp: in_set_conv_nth)
    with sc(2) t(5) have "?sc ! e = Fin (logits ! e)" by auto
    with True e sc(1) show ?thesis by (simp add: xsigmoid_def)
  next
    case False
    with sc(3) e have "?sc ! e = NegInf" by simp
    with False e sc(1) show ?thesis by (simp add: xsigmoid_def)
  qed
  have "Openai_router_scores top_k logits = Inr (map xsigmoid ?sc)"
    using t(1) by (simp add: Openai_router_scores_def Openai_scattered_def)
  with t(1) sc(1) val show ?thesis by auto
qed

lemma Qwen2Moe_routing_props:
  assumes "top_k \<le> length logits"
  shows "\<exists>w sel. topk top_k (softmax logits) = Inr (w, sel)
           \<and> Qwen2Moe_routing top_k renorm logits
               = Inr (if renorm then map (\<lambda>x. x / sum_list w) w else w, sel)
           \<and> length w = top_k \<and> length sel = top_k
           \<and> (\<forall>j < top_k. sel ! j < length logits
                 \<and> w ! j = exp (logits ! (sel ! j)) / sum_list (map exp logits))"
proof -
  from topk_props[of top_k "softmax logits"] assms obtain w sel where
    t: "topk top_k (softmax logits) = Inr (w, sel)" "length w = top_k" "length sel = top_k"
      "\<forall>j < top_k. sel ! j < length (softmax logits) \<and> w ! j = softmax logits ! (sel ! j)"
    by (auto simp: length_softmax)
  have "Qwen2Moe_routing top_k renorm logits
      = Inr (if renorm then map (\<lambda>x. x / sum_list w) w else w, sel)"
    using t(1) by (simp add: Qwen2Moe_routing_def)
  moreover have "\<forall>j < top_k. sel ! j < length logits
      \<and> w ! j = exp (logits ! (sel ! j)) / sum_list (map exp logits)"
    using t(4) by (auto simp: length_softmax softmax_nth)
  ultimately show ?thesis using t(1,2,3) by blast
qed

subsection \<open>Operations on matrices and broadcasting\<close>

lemma wf_tensor_2d: "wf_tensor t \<Longrightarrow> shape t = [n, h] \<Longrightarrow> length (data t) = n * h"
  by (simp add: wf_tensor_def)

lemma rows_2d: "shape t = [n, h] \<Longrightarrow> rows t = map (row_at h (data t)) [0..<n]"
  by (simp add: rows_def)

lemma rows_concat:
  assumes "\<forall>r \<in> set rs. length r = h"
  shows "rows \<lparr> shape = [length rs, h], data = concat rs \<rparr> = rs"
proof -
  have "map (row_at h (concat rs)) [0..<length rs] = map ((!) rs) [0..<length rs]"
    using assms by (intro map_cong) (simp_all add: row_at_concat)
  then show ?thesis by (simp add: rows_def map_nth)
qed

lemma length_concat_uniform: "\<forall>r \<in> set rs. length r = h \<Longrightarrow> length (concat rs) = length rs * h"
  by (induction rs) simp_all

lemma rows_lengths_2d:
  assumes "wf_tensor t" "shape t = [n, h]"
  shows "length (rows t) = n" "\<forall>row \<in> set (rows t). length row = h"
proof -
  show "length (rows t) = n" using assms(2) by (simp add: rows_def)
  show "\<forall>row \<in> set (rows t). length row = h"
  proof
    fix row assume "row \<in> set (rows t)"
    then obtain r where "r < n" "row = row_at h (data t) r" using assms(2) by (auto simp: rows_def)
    then show "length row = h" using length_row_at[of "data t" n h r] wf_tensor_2d[OF assms] by simp
  qed
qed

lemma reshape_infer_flat:
  assumes "0 < h" "numel t mod h = 0"
  shows "reshape_infer [] [h] t = Inr \<lparr> shape = [numel t div h, h], data = data t \<rparr>"
  using assms by (simp add: reshape_infer_def)

lemma Linear_forward_2d:
  assumes "shape x = [n, in_features L]"
  shows "Linear_forward L x
         = Inr \<lparr> shape = [n, out_features L],
                 data = concat (map (\<lambda>row. map (\<lambda>w. dot w row) (weight L)) (rows x)) \<rparr>"
  using assms by (simp add: Linear_forward_def)

lemma MLP_forward_2d:
  assumes "shape x = [n, mlp_hidden_size m]"
  shows "MLP_forward m x
         = Inr \<lparr> shape = [n, mlp_hidden_size m], data = concat (map (transform m) (rows x)) \<rparr>"
  using assms by (simp add: MLP_forward_def)

lemma sequence_map_Inr:
  assumes "\<forall>x \<in> set xs. \<exists>y. f x = Inr y"
  shows "\<exists>ys. sequence (map f xs) = Inr ys \<and> length ys = length xs
           \<and> (\<forall>i < length xs. f (xs ! i) = Inr (ys ! i))"
  using assms
proof (induction xs)
  case Nil
  then show ?case by simp
next
  case (Cons a xs)
  then obtain y ys where y: "f a = Inr y" and ys: "sequence (map f xs) = Inr ys"
    "length ys = length xs" "\<forall>i < length xs. f (xs ! i) = Inr (ys ! i)" by auto
  have "\<forall>i < length (a # xs). f ((a # xs) ! i) = Inr ((y # ys) ! i)"
    using y ys(3) by (auto simp: nth_Cons split: nat.splits)
  then show ?case using y ys(1,2) by (intro exI[of _ "y # ys"]) simp
qed

text \<open>Broadcasting of equal shapes and of a column against a matrix.\<close>

lemma row_at_zip: "row_at m (zip a b) i = zip (row_at m a i) (row_at m b i)"
  by (simp add: row_at_def take_zip drop_zip)

lemma broadcast_shape_same: "broadcast_shape s s = Inr s"
  by (induction s) (simp_all add: bdim_def)

lemma broadcast_data_same:
  "length a = prod_list s \<Longrightarrow> length b = prod_list s \<Longrightarrow> broadcast_data f s s a b = map2 f a b"
proof (induction s arbitrary: a b)
  case Nil
  then show ?case by simp
next
  case (Cons x xs)
  let ?m = "prod_list xs"
  have inner: "broadcast_data f xs xs (row_at ?m a (if x = 1 then 0 else i))
                 (row_at ?m b (if x = 1 then 0 else i))
               = map2 f (row_at ?m a i) (row_at ?m b i)" if "i < x" for i
  proof -
    have i: "(if x = 1 then 0 else i) = i" using that by auto
    have "length (row_at ?m a i) = ?m" "length (row_at ?m b i) = ?m"
      using Cons.prems that length_row_at[of a x ?m i] length_row_at[of b x ?m i] by simp_all
    then show ?thesis unfolding i by (rule Cons.IH)
  qed
  have bd: "bdim x x = x" by (simp add: bdim_def)
  have eqm: "map (\<lambda>i. broadcast_data f xs xs (row_at ?m a (if x = 1 then 0 else i))
                 (row_at ?m b (if x = 1 then 0 else i))) [0..<x]
           = map (\<lambda>i. map2 f (row_at ?m a i) (row_at ?m b i)) [0..<x]"
  proof (rule map_cong[OF refl])
    fix i assume "i \<in> set [0..<x]"
    then have "i < x" by simp
    then show "broadcast_data f xs xs (row_at ?m a (if x = 1 then 0 else i))
                 (row_at ?m b (if x = 1 then 0 else i))
               = map2 f (row_at ?m a i) (row_at ?m b i)" by (rule inner)
  qed
  have "broadcast_data f (x # xs) (x # xs) a b
        = concat (map (\<lambda>i. map2 f (row_at ?m a i) (row_at ?m b i)) [0..<x])"
    by (simp only: broadcast_data.simps bd eqm)
  also have "\<dots> = concat (map (\<lambda>i. map (\<lambda>(p, q). f p q) (row_at ?m (zip a b) i)) [0..<x])"
    by (simp add: row_at_zip)
  also have "\<dots> = map (\<lambda>(p, q). f p q) (concat (map (row_at ?m (zip a b)) [0..<x]))"
    by (simp add: map_concat comp_def)
  also have "\<dots> = map2 f a b"
    using Cons.prems by (simp add: concat_row_at)
  finally show ?case .
qed

lemma broadcast_data_column:
  assumes "length a = n" "length b = n * h"
  shows "broadcast_data f [n, 1] [n, h] a b
         = concat (map (\<lambda>r. map (f (a ! r)) (row_at h b r)) [0..<n])"
proof -
  have inner: "broadcast_data f [Suc 0] [h] (row_at (Suc 0) a (if n = Suc 0 then 0 else r))
                 (row_at h b (if n = Suc 0 then 0 else r)) = map (f (a ! r)) (row_at h b r)"
    if "r < n" for r
  proof -
    have r: "(if n = Suc 0 then 0 else r) = r" using that by auto
    have ra: "row_at (Suc 0) a r = [a ! r]"
      using that assms(1) by (simp add: row_at_def take_Suc_conv_app_nth)
    have lb: "length (row_at h b r) = h" using length_row_at[of b n h r] assms(2) that by simp
    have "broadcast_data f [Suc 0] [h] [a ! r] (row_at h b r)
          = concat (map (\<lambda>j. map2 f [a ! r] (row_at (Suc 0) (row_at h b r) j)) [0..<h])"
      by (auto simp: bdim_def row_at_def intro!: arg_cong[where f = concat] map_cong)
    also have "\<dots> = concat (map (\<lambda>j. [f (a ! r) (row_at h b r ! j)]) [0..<h])"
      using lb by (intro arg_cong[where f = concat] map_cong)
        (auto simp: row_at_def take_Suc_conv_app_nth)
    also have "\<dots> = map (\<lambda>j. f (a ! r) (row_at h b r ! j)) [0..<h]"
      by (induction h) simp_all
    also have "\<dots> = map (f (a ! r)) (map ((!) (row_at h b r)) [0..<length (row_at h b r)])"
      unfolding lb by (simp add: comp_def)
    also have "\<dots> = map (f (a ! r)) (row_at h b r)"
      by (simp only: map_nth)
    finally show ?thesis unfolding r ra .
  qed
  have bd: "bdim n n = n" "prod_list [1 :: nat] = 1" "prod_list [h] = h" by (simp_all add: bdim_def)
  have eqm: "map (\<lambda>r. broadcast_data f [Suc 0] [h] (row_at (Suc 0) a (if n = Suc 0 then 0 else r))
                 (row_at h b (if n = Suc 0 then 0 else r))) [0..<n]
           = map (\<lambda>r. map (f (a ! r)) (row_at h b r)) [0..<n]"
  proof (rule map_cong[OF refl])
    fix r assume "r \<in> set [0..<n]"
    then have "r < n" by simp
    then show "broadcast_data f [Suc 0] [h] (row_at (Suc 0) a (if n = Suc 0 then 0 else r))
                 (row_at h b (if n = Suc 0 then 0 else r)) = map (f (a ! r)) (row_at h b r)"
      by (rule inner)
  qed
  show ?thesis
    by (subst broadcast_data.simps(2)) (simp add: bdim_def eqm del: broadcast_data.simps)
qed

subsection \<open>The Qwen2Moe block\<close>

lemma index_add_lengths:
  assumes "\<forall>row \<in> set final. length row = h" "\<forall>v \<in> set src. length v = h"
  shows "length (index_add final top_x src) = length final
       \<and> (\<forall>row \<in> set (index_add final top_x src). length row = h)"
proof -
  have "length (fold (\<lambda>(r, v) f. f[r := vadd (f ! r) v]) ps final) = length final
       \<and> (\<forall>row \<in> set (fold (\<lambda>(r, v) f. f[r := vadd (f ! r) v]) ps final). length row = h)"
    if "\<forall>row \<in> set final. length row = h" "\<forall>p \<in> set ps. length (snd p) = h" for ps final
    using that
  proof (induction ps arbitrary: final)
    case Nil
    then show ?case by simp
  next
    case (Cons p ps)
    obtain r v where p: "p = (r, v)" by (cases p)
    let ?f = "final[r := vadd (final ! r) v]"
    have "\<forall>row \<in> set ?f. length row = h"
    proof (cases "r < length final")
      case True
      then have "length (vadd (final ! r) v) = h"
        using Cons.prems p by (simp add: vadd_def)
      then show ?thesis using Cons.prems(1) set_update_subset_insert[of final r] by auto
    next
      case False
      then have "?f = final" by (intro list_update_beyond) simp
      then show ?thesis using Cons.prems(1) by (simp only:)
    qed
    from Cons.IH[OF this] Cons.prems(2) show ?case by (simp add: p)
  qed
  moreover have "\<forall>p \<in> set (zip top_x src). length (snd p) = h"
    using assms(2) by (auto dest: set_zip_rightD)
  ultimately show ?thesis using assms(1) unfolding index_add_def by blast
qed

lemma expert_positions_bound:
  "(idx, top_x) \<in> set (expert_positions k sel e) \<Longrightarrow> top_x < length sel \<and> idx < k"
  by (auto simp: expert_positions_def split: if_splits)

lemma expert_loop_ok:
  assumes "\<forall>e \<in> set es. e < length (experts P)"
    and "list_all (\<lambda>m. wf_mlp m \<and> mlp_hidden_size m = hidden_size P) (experts P)"
    and "length sel \<le> length x"
    and "\<forall>row \<in> set x. length row = hidden_size P"
    and "\<forall>row \<in> set final. length row = hidden_size P"
  shows "\<exists>f. expert_loop P x w sel es final = Inr f \<and> length f = length final
           \<and> (\<forall>row \<in> set f. length row = hidden_size P)"
  using assms(1,5)
proof (induction es arbitrary: final)
  case Nil
  then show ?case by simp
next
  case (Cons e es)
  let ?H = "hidden_size P"
  let ?hits = "expert_positions (num_experts_per_tok P) sel e"
  let ?inp = "\<lparr> shape = [length ?hits, ?H], data = concat (map (\<lambda>(idx, top_x). x ! top_x) ?hits) \<rparr>"
  have e: "e < length (experts P)" using Cons.prems(1) by simp
  then have m: "wf_mlp (experts P ! e)" "mlp_hidden_size (experts P ! e) = ?H"
    using assms(2) by (simp_all add: list_all_length)
  have inrange: "\<not> list_ex (\<lambda>(idx, top_x). length x \<le> top_x) ?hits"
    using expert_positions_bound[of _ _ "num_experts_per_tok P" sel e] assms(3)
    by (fastforce simp: list_ex_iff)
  have gathered: "\<forall>row \<in> set (map (\<lambda>(idx, top_x). x ! top_x) ?hits). length row = ?H"
  proof
    fix row assume "row \<in> set (map (\<lambda>(idx, top_x). x ! top_x) ?hits)"
    then obtain idx top_x where h: "(idx, top_x) \<in> set ?hits" "row = x ! top_x" by auto
    from expert_positions_bound[OF h(1)] assms(3) have "top_x < length x" by simp
    with assms(4) h(2) show "length row = ?H" by simp
  qed
  have rin: "rows ?inp = map (\<lambda>(idx, top_x). x ! top_x) ?hits"
    using rows_concat[OF gathered] by simp
  have cur: "MLP_forward (experts P ! e) ?inp
      = Inr \<lparr> shape = [length ?hits, ?H], data = concat (map (transform (experts P ! e)) (rows ?inp)) \<rparr>"
    using MLP_forward_2d[of ?inp "length ?hits" "experts P ! e"] m(2) by simp
  let ?cur = "\<lparr> shape = [length ?hits, ?H],
                 data = concat (map (transform (experts P ! e)) (rows ?inp)) \<rparr>"
  have outrows: "\<forall>row \<in> set (map (transform (experts P ! e)) (rows ?inp)). length row = ?H"
    using gathered m unfolding rin wf_mlp_def by auto
  have rcur: "rows ?cur = map (transform (experts P ! e)) (rows ?inp)"
    using rows_concat[OF outrows] by (simp add: rin)
  let ?src = "map2 (\<lambda>(idx, top_x) row. smult (w ! top_x ! idx) row) ?hits (rows ?cur)"
  have src: "\<forall>v \<in> set ?src. length v = ?H"
  proof
    fix v assume "v \<in> set ?src"
    then obtain p row where "row \<in> set (rows ?cur)" "v = (case p of (idx, top_x) \<Rightarrow> smult (w ! top_x ! idx)) row"
      by (auto dest: set_zip_rightD)
    then show "length v = ?H" using outrows unfolding rcur by (cases p) (auto simp: smult_def)
  qed
  let ?final = "index_add final (map snd ?hits) ?src"
  from index_add_lengths[OF Cons.prems(2) src, of "map snd ?hits"]
  have fin: "length ?final = length final" "\<forall>row \<in> set ?final. length row = ?H" by blast+
  have "\<forall>e \<in> set es. e < length (experts P)" using Cons.prems(1) by simp
  from Cons.IH[OF this fin(2)] obtain f where
    f: "expert_loop P x w sel es ?final = Inr f" "length f = length ?final"
      "\<forall>row \<in> set f. length row = ?H" by blast
  have "expert_loop P x w sel (e # es) final = Inr f"
    using e inrange cur f(1) by (simp add: Let_def)
  with f(2,3) fin(1) show ?case by simp
qed

lemma tbinop_same_shape:
  assumes "shape a = s" "shape b = s" "length (data a) = prod_list s" "length (data b) = prod_list s"
  shows "tbinop f a b = Inr \<lparr> shape = s, data = map2 f (data a) (data b) \<rparr>"
  using assms
  by (simp add: tbinop_def pad_shape_def broadcast_shape_same broadcast_data_same)

lemma tbinop_leading_one:
  assumes "shape a = Suc 0 # s" "shape b = s" "length (data a) = prod_list s"
    "length (data b) = prod_list s"
  shows "tbinop f a b = Inr \<lparr> shape = Suc 0 # s, data = map2 f (data a) (data b) \<rparr>"
proof -
  have "max (length (shape a)) (length (shape b)) = Suc (length s)" using assms by simp
  moreover have "pad_shape (Suc (length s)) (shape a) = 1 # s"
    "pad_shape (Suc (length s)) (shape b) = 1 # s" using assms by (simp_all add: pad_shape_def)
  moreover have "broadcast_data f (1 # s) (1 # s) (data a) (data b) = map2 f (data a) (data b)"
    using assms by (intro broadcast_data_same) simp_all
  ultimately show ?thesis
    by (simp add: tbinop_def broadcast_shape_same del: broadcast_data.simps broadcast_shape.simps)
qed

lemma tbinop_column:
  assumes "shape a = [n, 1]" "shape b = [n, h]" "length (data a) = n" "length (data b) = n * h"
  shows "tbinop f a b
         = Inr \<lparr> shape = [n, h],
                 data = concat (map (\<lambda>r. map (f (data a ! r)) (row_at h (data b) r)) [0..<n]) \<rparr>"
proof -
  have bs: "broadcast_shape [n, 1] [n, h] = Inr [n, h]" by (simp add: bdim_def)
  have pa: "pad_shape (max (length (shape a)) (length (shape b))) (shape a) = [n, 1]"
    and pb: "pad_shape (max (length (shape a)) (length (shape b))) (shape b) = [n, h]"
    using assms(1,2) by (simp_all add: pad_shape_def)
  show ?thesis
    unfolding tbinop_def Let_def pa pb bs broadcast_data_column[OF assms(3,4), of f]
    by simp
qed

lemma Qwen2MoeNaiveMoe_forward_ok:
  assumes "wf_qwen2moe P" "wf_tensor hs" "shape hs = [n, hidden_size P]"
    and "wf_tensor rl" "shape rl = [n, num_experts P]"
    and "num_experts_per_tok P \<le> num_experts P"
  shows "\<exists>out. Qwen2MoeNaiveMoe_forward P hs rl = Inr out \<and> shape out = [n, hidden_size P]
           \<and> length (data out) = n * hidden_size P"
proof -
  let ?k = "num_experts_per_tok P" and ?E = "num_experts P" and ?H = "hidden_size P"
  let ?route = "Qwen2Moe_routing ?k (norm_topk_prob P)"
  have rl_rows: "length (rows rl) = n" "\<forall>row \<in> set (rows rl). length row = ?E"
    using rows_lengths_2d[OF assms(4,5)] by blast+
  have routed_row: "\<exists>w sel. ?route row = Inr (w, sel) \<and> (\<forall>e \<in> set sel. e < ?E)"
    if "row \<in> set (rows rl)" for row
  proof -
    from that rl_rows(2) assms(6) have "?k \<le> length row" by simp
    from Qwen2Moe_routing_props[OF this, of "norm_topk_prob P"] obtain w sel where
      r: "?route row = Inr (if norm_topk_prob P then map (\<lambda>x. x / sum_list w) w else w, sel)"
        "length sel = ?k" "\<forall>j < ?k. sel ! j < length row" by blast
    have "\<forall>e \<in> set sel. e < ?E"
      using r(2,3) that rl_rows(2) by (auto simp: in_set_conv_nth)
    with r(1) show ?thesis by blast
  qed
  then have "\<forall>row \<in> set (rows rl). \<exists>y. ?route row = Inr y" by blast
  from sequence_map_Inr[OF this] obtain routed where
    routed: "sequence (map ?route (rows rl)) = Inr routed" "length routed = length (rows rl)"
      "\<forall>i < length (rows rl). ?route (rows rl ! i) = Inr (routed ! i)" by blast
  let ?w = "map fst routed" and ?sel = "map snd routed"
  let ?x = "rows hs"
  let ?zeros = "map (map (\<lambda>_. 0 :: real)) ?x"
  let ?hit = "filter (\<lambda>e. expert_positions ?k ?sel e \<noteq> []) [0..<?E]"
  have x_rows: "length ?x = n" "\<forall>row \<in> set ?x. length row = ?H"
    using rows_lengths_2d[OF assms(2,3)] by blast+
  have onehot: "\<not> list_ex (list_ex (\<lambda>e. ?E \<le> e)) ?sel"
  proof -
    have "\<forall>s \<in> set ?sel. \<forall>e \<in> set s. e < ?E"
    proof
      fix s assume "s \<in> set ?sel"
      then obtain i where i: "i < length routed" "s = snd (routed ! i)"
        by (auto simp: in_set_conv_nth)
      then have "rows rl ! i \<in> set (rows rl)" "?route (rows rl ! i) = Inr (routed ! i)"
        using routed(2,3) by simp_all
      with routed_row[of "rows rl ! i"] i(2) show "\<forall>e \<in> set s. e < ?E" by auto
    qed
    then show ?thesis by (fastforce simp: list_ex_iff)
  qed
  have ex: "wf_linear (gate P)" "length (experts P) = ?E"
    "list_all (\<lambda>m. wf_mlp m \<and> mlp_hidden_size m = ?H) (experts P)"
    using assms(1) by (simp_all add: wf_qwen2moe_def)
  have "\<forall>e \<in> set ?hit. e < length (experts P)" using ex(2) by simp
  moreover have "length ?sel \<le> length ?x" using routed(2) rl_rows(1) x_rows(1) by simp
  moreover have "\<forall>row \<in> set ?zeros. length row = ?H" using x_rows(2) by simp
  ultimately obtain final where
    final: "expert_loop P ?x ?w ?sel ?hit ?zeros = Inr final" "length final = length ?zeros"
      "\<forall>row \<in> set final. length row = ?H"
    using expert_loop_ok[OF _ ex(3) _ x_rows(2), of ?hit ?sel ?zeros ?w] by blast
  have "Qwen2MoeNaiveMoe_forward P hs rl = Inr \<lparr> shape = shape hs, data = concat final \<rparr>"
    using assms(3,5) routed(1) onehot final(1)
    by (simp add: Qwen2MoeNaiveMoe_forward_def Let_def)
  moreover have "length (concat final) = n * ?H"
    using length_concat_uniform[OF final(3)] final(2) x_rows(1) by simp
  ultimately show ?thesis using assms(3) by simp
qed

lemma row_at_map2:
  "row_at h (map2 f a b) r = map2 f (row_at h a r) (row_at h b r)"
  by (simp add: row_at_def take_map drop_map take_zip drop_zip)

lemma Linear_forward_rows:
  assumes "wf_linear L" "wf_tensor x" "shape x = [n, in_features L]"
  shows "\<exists>y. Linear_forward L x = Inr y \<and> shape y = [n, out_features L] \<and> wf_tensor y
           \<and> rows y = map (\<lambda>row. map (\<lambda>w. dot w row) (weight L)) (rows x)"
proof -
  let ?rs = "map (\<lambda>row. map (\<lambda>w. dot w row) (weight L)) (rows x)"
  let ?y = "\<lparr> shape = [n, out_features L], data = concat ?rs \<rparr>"
  have len: "length ?rs = n" using assms(3) by (simp add: rows_def)
  have uni: "\<forall>r \<in> set ?rs. length r = out_features L"
    using assms(1) by (auto simp: wf_linear_def)
  have "rows ?y = ?rs" using rows_concat[OF uni] len by simp
  moreover have "wf_tensor ?y"
    using length_concat_uniform[OF uni] len by (simp add: wf_tensor_def)
  ultimately show ?thesis using Linear_forward_2d[OF assms(3)] by simp
qed

lemma MLP_forward_rows:
  assumes "wf_mlp m" "wf_tensor x" "shape x = [n, mlp_hidden_size m]"
  shows "\<exists>y. MLP_forward m x = Inr y \<and> shape y = [n, mlp_hidden_size m] \<and> wf_tensor y
           \<and> rows y = map (transform m) (rows x)"
proof -
  let ?rs = "map (transform m) (rows x)"
  let ?y = "\<lparr> shape = [n, mlp_hidden_size m], data = concat ?rs \<rparr>"
  have len: "length ?rs = n" using assms(3) by (simp add: rows_def)
  have uni: "\<forall>r \<in> set ?rs. length r = mlp_hidden_size m"
    using assms(1) rows_lengths_2d(2)[OF assms(2,3)] by (auto simp: wf_mlp_def)
  have "rows ?y = ?rs" using rows_concat[OF uni] len by simp
  moreover have "wf_tensor ?y"
    using length_concat_uniform[OF uni] len by (simp add: wf_tensor_def)
  ultimately show ?thesis using MLP_forward_2d[OF assms(3)] by simp
qed

lemma Qwen2MoeSparseMoeBlock_prefix:
  assumes wf: "wf_qwen2moe P" and x: "wf_tensor hidden_states"
    and sh: "shape hidden_states = [b, s, hidden_size P]"
    and h: "0 < hidden_size P" and k: "num_experts_per_tok P \<le> num_experts P"
  defines "srow \<equiv> \<lambda>r. smult (sigmoid (dot (hd (shared_expert_gate_weight P))
                                      (row_at (hidden_size P) (data hidden_states) r)))
                      (transform (shared_expert P)
                         (row_at (hidden_size P) (data hidden_states) r))"
  shows "\<exists>router_logits experts_out.
           Qwen2MoeNaiveMoe_forward P \<lparr> shape = [b * s, hidden_size P], data = data hidden_states \<rparr>
              router_logits = Inr experts_out
         \<and> length (data experts_out) = b * s * hidden_size P
         \<and> (\<forall>v \<in> set (map srow [0..<b * s]). length v = hidden_size P)
         \<and> Qwen2MoeSparseMoeBlock_forward P hidden_states
             = ebind (tbinop (+) \<lparr> shape = [b, s, hidden_size P], data = data experts_out \<rparr>
                        \<lparr> shape = [b * s, hidden_size P], data = concat (map srow [0..<b * s]) \<rparr>)
                 (\<lambda>final2. ebind (reshape [b, s, hidden_size P] final2)
                    (\<lambda>final_hidden_states. Inr (final_hidden_states, router_logits)))"
proof -
  let ?H = "hidden_size P" and ?E = "num_experts P" and ?n = "b * s"
  let ?hs = "\<lparr> shape = [?n, ?H], data = data hidden_states \<rparr>"
  let ?x = "\<lambda>r. row_at ?H (data hidden_states) r"
  have ne: "numel hidden_states = ?n * ?H" using sh by (simp add: numel_def)
  have flat: "reshape_infer [] [?H] hidden_states = Inr ?hs"
    using reshape_infer_flat[of ?H hidden_states] h ne by simp
  have wfhs: "wf_tensor ?hs" using x sh by (simp add: wf_tensor_def)
  have rhs: "rows ?hs = map ?x [0..<?n]" by (simp add: rows_def)
  have P: "wf_linear (gate P)" "wf_linear (shared_expert_gate P)" "wf_mlp (shared_expert P)"
    "mlp_hidden_size (shared_expert P) = ?H"
    using wf by (simp_all add: wf_qwen2moe_def)
  from Linear_forward_rows[OF P(1) wfhs, of ?n] obtain rl where
    rl: "Linear_forward (gate P) ?hs = Inr rl" "shape rl = [?n, ?E]" "wf_tensor rl"
    by (auto simp: gate_def)
  from Qwen2MoeNaiveMoe_forward_ok[OF wf wfhs _ rl(3,2) k] obtain eo where
    eo: "Qwen2MoeNaiveMoe_forward P ?hs rl = Inr eo" "shape eo = [?n, ?H]"
      "length (data eo) = ?n * ?H" by auto
  let ?final1 = "\<lparr> shape = [b, s, ?H], data = data eo \<rparr>"
  have f1: "reshape [b, s, ?H] eo = Inr ?final1"
    using eo(2) by (simp add: reshape_def numel_def)
  from MLP_forward_rows[OF P(3) wfhs, of ?n] P(4) obtain so1 where
    so1: "MLP_forward (shared_expert P) ?hs = Inr so1" "shape so1 = [?n, ?H]" "wf_tensor so1"
      "rows so1 = map (transform (shared_expert P)) (rows ?hs)" by auto
  from Linear_forward_rows[OF P(2) wfhs, of ?n] obtain gl where
    gl: "Linear_forward (shared_expert_gate P) ?hs = Inr gl" "shape gl = [?n, 1]" "wf_tensor gl"
      "rows gl = map (\<lambda>row. map (\<lambda>w. dot w row) (shared_expert_gate_weight P)) (rows ?hs)"
    by (auto simp: shared_expert_gate_def)
  obtain g where g: "shared_expert_gate_weight P = [g]"
    using P(2) by (cases "shared_expert_gate_weight P")
      (auto simp: wf_linear_def shared_expert_gate_def)
  have gdata: "data gl = map (\<lambda>r. dot g (?x r)) [0..<?n]"
  proof -
    have "data gl = concat (rows gl)" using concat_rows[of gl] gl(2,3) by simp
    also have "\<dots> = concat (map (\<lambda>r. [dot g (?x r)]) [0..<?n])"
      by (simp add: gl(4) rhs g comp_def)
    also have "\<dots> = map (\<lambda>r. dot g (?x r)) [0..<?n]" by (induction "?n") simp_all
    finally show ?thesis .
  qed
  let ?sg = "tmap sigmoid gl"
  have sg: "shape ?sg = [?n, 1]" "length (data ?sg) = ?n"
    "\<forall>r < ?n. data ?sg ! r = sigmoid (dot g (?x r))"
    using gl(2) gdata by (simp_all add: tmap_def)
  have so1len: "length (data so1) = ?n * ?H" using so1(2,3) by (simp add: wf_tensor_def)
  have so1row: "row_at ?H (data so1) r = transform (shared_expert P) (?x r)" if "r < ?n" for r
  proof -
    have "rows so1 ! r = row_at ?H (data so1) r" using that so1(2) by (simp add: rows_def)
    then show ?thesis using that by (simp add: so1(4) rhs)
  qed
  have srow: "srow = (\<lambda>r. smult (sigmoid (dot g (?x r))) (transform (shared_expert P) (?x r)))"
    by (simp add: srow_def g)
  let ?so = "\<lparr> shape = [?n, ?H], data = concat (map srow [0..<?n]) \<rparr>"
  have so: "tbinop (*) ?sg so1 = Inr ?so"
  proof -
    have eq: "map (\<lambda>r. map ((*) (data ?sg ! r)) (row_at ?H (data so1) r)) [0..<?n]
              = map srow [0..<?n]"
      using sg(3) so1row by (intro map_cong) (simp_all add: smult_def srow)
    show ?thesis by (simp only: tbinop_column[OF sg(1) so1(2) sg(2) so1len, of "(*)"] eq)
  qed
  have srows: "\<forall>v \<in> set (map srow [0..<?n]). length v = ?H"
  proof -
    have "length (transform (shared_expert P) (?x r)) = ?H" if "r < ?n" for r
    proof -
      have "length (?x r) = ?H" using length_row_at[of "data hidden_states" ?n ?H r] that x sh
        by (simp add: wf_tensor_def)
      then show ?thesis using P(3,4) by (simp add: wf_mlp_def)
    qed
    then show ?thesis by (auto simp: smult_def srow)
  qed
  have fwd: "Qwen2MoeSparseMoeBlock_forward P hidden_states
      = ebind (tbinop (+) ?final1 ?so)
          (\<lambda>final2. ebind (reshape [b, s, ?H] final2) (\<lambda>f. Inr (f, rl)))"
    unfolding Qwen2MoeSparseMoeBlock_forward_def sh
    by (simp add: flat rl(1) eo(1) f1 so1(1) gl(1) so)
  from eo(1,3) srows fwd show ?thesis by blast
qed

lemma Qwen2MoeSparseMoeBlock_batch1:
  assumes wf: "wf_qwen2moe P" and x: "wf_tensor hidden_states"
    and sh: "shape hidden_states = [1, s, hidden_size P]"
    and h: "0 < hidden_size P" and k: "num_experts_per_tok P \<le> num_experts P"
  shows "\<exists>out router_logits experts_out.
           Qwen2MoeSparseMoeBlock_forward P hidden_states = Inr (out, router_logits)
         \<and> shape out = [1, s, hidden_size P]
         \<and> Qwen2MoeNaiveMoe_forward P \<lparr> shape = [s, hidden_size P], data = data hidden_states \<rparr>
              router_logits = Inr experts_out
         \<and> (\<forall>r < s. row_at (hidden_size P) (data out) r
               = vadd (row_at (hidden_size P) (data experts_out) r)
                   (smult (sigmoid (dot (hd (shared_expert_gate_weight P))
                                      (row_at (hidden_size P) (data hidden_states) r)))
                      (transform (shared_expert P)
                         (row_at (hidden_size P) (data hidden_states) r))))"
proof -
  let ?H = "hidden_size P"
  let ?srow = "\<lambda>r. smult (sigmoid (dot (hd (shared_expert_gate_weight P))
                                      (row_at ?H (data hidden_states) r)))
                      (transform (shared_expert P) (row_at ?H (data hidden_states) r))"
  from Qwen2MoeSparseMoeBlock_prefix[OF wf x sh h k] obtain rl eo where
    eo: "Qwen2MoeNaiveMoe_forward P \<lparr> shape = [s, ?H], data = data hidden_states \<rparr> rl = Inr eo"
      "length (data eo) = s * ?H"
    and srows: "\<forall>v \<in> set (map ?srow [0..<s]). length v = ?H"
    and fwd: "Qwen2MoeSparseMoeBlock_forward P hidden_states
       = ebind (tbinop (+) \<lparr> shape = [Suc 0, s, ?H], data = data eo \<rparr>
                  \<lparr> shape = [s, ?H], data = concat (map ?srow [0..<s]) \<rparr>)
           (\<lambda>final2. ebind (reshape [Suc 0, s, ?H] final2) (\<lambda>f. Inr (f, rl)))"
    by auto
  let ?final1 = "\<lparr> shape = [Suc 0, s, ?H], data = data eo \<rparr>"
  let ?so = "\<lparr> shape = [s, ?H], data = concat (map ?srow [0..<s]) \<rparr>"
  let ?final2 = "\<lparr> shape = [Suc 0, s, ?H],
                    data = map2 (+) (data eo) (concat (map ?srow [0..<s])) \<rparr>"
  have solen: "length (data ?so) = s * ?H" using length_concat_uniform[OF srows] by simp
  have f2: "tbinop (+) ?final1 ?so = Inr ?final2"
    using tbinop_leading_one[of ?final1 "[s, ?H]" ?so "(+)"] eo(2) solen by simp
  have f3: "reshape [Suc 0, s, ?H] ?final2 = Inr ?final2" by (simp add: reshape_def numel_def)
  have fwd': "Qwen2MoeSparseMoeBlock_forward P hidden_states = Inr (?final2, rl)"
    unfolding fwd f2 by (simp add: f3)
  have rowout: "row_at ?H (data ?final2) r = vadd (row_at ?H (data eo) r) (?srow r)" if "r < s" for r
  proof -
    have "row_at ?H (concat (map ?srow [0..<s])) r = map ?srow [0..<s] ! r"
      using that by (intro row_at_concat[OF srows]) simp
    then show ?thesis using that by (simp add: row_at_map2 vadd_def)
  qed
  from fwd' eo(1) rowout show ?thesis
    by (intro exI[of _ ?final2] exI[of _ rl] exI[of _ eo]) simp
qed

lemma tbinop_rank3_rank2:
  "tbinop f \<lparr> shape = [b, s, h], data = da \<rparr> \<lparr> shape = [n, h'], data = db \<rparr>
   = ebind (broadcast_shape [b, s, h] [Suc 0, n, h'])
       (\<lambda>sh. Inr \<lparr> shape = sh, data = broadcast_data f [b, s, h] [Suc 0, n, h'] da db \<rparr>)"
  by (simp add: tbinop_def pad_shape_def Let_def del: broadcast_shape.simps broadcast_data.simps)

lemma Qwen2MoeSparseMoeBlock_batch_error:
  assumes wf: "wf_qwen2moe P" and x: "wf_tensor hidden_states"
    and sh: "shape hidden_states = [b, s, hidden_size P]"
    and h: "0 < hidden_size P" and k: "num_experts_per_tok P \<le> num_experts P"
    and b: "2 \<le> b" and s: "0 < s"
  shows "Qwen2MoeSparseMoeBlock_forward P hidden_states = Inl ShapeError"
proof -
  let ?H = "hidden_size P"
  from Qwen2MoeSparseMoeBlock_prefix[OF wf x sh h k]
  obtain rl and eo :: "real tensor" and d :: "real list" where
    fwd: "Qwen2MoeSparseMoeBlock_forward P hidden_states
       = ebind (tbinop (+) \<lparr> shape = [b, s, ?H], data = data eo \<rparr>
                  \<lparr> shape = [b * s, ?H], data = d \<rparr>)
           (\<lambda>final2. ebind (reshape [b, s, ?H] final2) (\<lambda>f. Inr (f, rl)))"
    by blast
  have bs: "b * s \<noteq> s" "b * s \<noteq> Suc 0" using b s by auto
  show ?thesis
  proof (cases "s = Suc 0")
    case True
    have bsh: "broadcast_shape [b, s, ?H] [Suc 0, b * s, ?H] = Inr [b, b, ?H]"
      using True b by (simp add: bdim_def)
    have "b * ?H \<noteq> b * b * ?H" using b h by simp
    then have "reshape [b, s, ?H] \<lparr> shape = [b, b, ?H], data = dd \<rparr> = Inl ShapeError" for dd :: "real list"
      using True by (simp add: reshape_def numel_def)
    then show ?thesis unfolding fwd tbinop_rank3_rank2 bsh by simp
  next
    case False
    have "broadcast_shape [b, s, ?H] [Suc 0, b * s, ?H] = Inl ShapeError"
      using False bs by simp
    then show ?thesis unfolding fwd tbinop_rank3_rank2 by simp
  qed
qed

subsection \<open>The OpenaiMLP block\<close>

lemma Openai_scattered_ok:
  "top_k \<le> length logits \<Longrightarrow> \<exists>sc. Openai_scattered top_k logits = Inr sc"
  using topk_props[of top_k logits] by (auto simp: Openai_scattered_def)

lemma tbinop_matrix_column:
  assumes "shape a = [n, h]" "shape b = [n, Suc 0]"
  shows "\<exists>r. tbinop f a b = Inr r \<and> shape r = [n, h]"
proof -
  have bs: "broadcast_shape [n, h] [n, Suc 0] = Inr [n, h]" by (simp add: bdim_def)
  have pa: "pad_shape (max (length (shape a)) (length (shape b))) (shape a) = [n, h]"
    and pb: "pad_shape (max (length (shape a)) (length (shape b))) (shape b) = [n, Suc 0]"
    using assms by (simp_all add: pad_shape_def)
  show ?thesis unfolding tbinop_def Let_def pa pb bs by simp
qed

lemma OpenaiExperts_forward_shape:
  assumes "shape t = [e * n, h]" "o_num_experts P = e" "o_hidden_dim P = h" "0 < e" "0 < h"
  shows "\<exists>r. OpenaiExperts_forward P t = Inr r \<and> shape r = [e * n, h]"
proof -
  have ne: "numel t = n * (e * h)" using assms(1) by (simp add: numel_def)
  have v: "reshape_infer [e] [h] t = Inr \<lparr> shape = [e, n, h], data = data t \<rparr>"
    using assms(4,5) by (simp add: reshape_infer_def ne)
  have "numel \<lparr> shape = [e, n, h], data = d \<rparr> = (e * n) * h" for d :: "real list"
    by (simp add: numel_def)
  then have "reshape_infer [] [h] \<lparr> shape = [e, n, h], data = d \<rparr>
      = Inr \<lparr> shape = [e * n, h], data = d \<rparr>" for d :: "real list"
    using assms(5) by (simp add: reshape_infer_def)
  then show ?thesis using v assms(2,3) by (simp add: OpenaiExperts_forward_def)
qed

text \<open>
  The lookup of \<open>self.shared_expert\<close> stands between every input and the return of
  \<open>forward\<close>: whatever the module and the input, \<open>forward\<close> raises.
\<close>

lemma OpenaiMLP_forward_never_returns:
  "\<exists>e. OpenaiMLP_forward P hidden_states = Inl e"
  by (simp add: OpenaiMLP_forward_def Let_def o_shared_expert_def ebind_def split: sum.split)

text \<open>
  When the module is well formed and the input holds vectors of its width, the lines
  before the lookup all succeed, and the error is the \<open>AttributeError\<close> of line 74.
\<close>

lemma OpenaiMLP_forward_AttributeError:
  assumes wf: "wf_openai_mlp P" and x: "wf_tensor hidden_states"
    and h: "0 < o_hidden_dim P" and e: "0 < o_num_experts P"
    and dv: "numel hidden_states mod o_hidden_dim P = 0"
    and k: "o_top_k P \<le> o_num_experts P"
  shows "OpenaiMLP_forward P hidden_states = Inl AttributeError"
proof -
  let ?H = "o_hidden_dim P" and ?E = "o_num_experts P"
  let ?n = "numel hidden_states div ?H"
  let ?hs = "\<lparr> shape = [?n, ?H], data = data hidden_states \<rparr>"
  have ne: "numel hidden_states = ?n * ?H" using dv by (simp add: mod_eq_0_iff_dvd)
  have flat: "reshape_infer [] [?H] hidden_states = Inr ?hs"
    using reshape_infer_flat[OF h dv] .
  have wfhs: "wf_tensor ?hs" using x ne by (simp add: wf_tensor_def numel_def)
  have P: "wf_linear (router P)" using wf by (simp add: wf_openai_mlp_def)
  from Linear_forward_rows[OF P wfhs, of ?n] obtain rl where
    rl: "Linear_forward (router P) ?hs = Inr rl" "shape rl = [?n, ?E]" "wf_tensor rl"
    by (auto simp: router_def)
  have rl_rows: "length (rows rl) = ?n" "\<forall>row \<in> set (rows rl). length row = ?E"
    using rows_lengths_2d[OF rl(3,2)] by blast+
  have "\<forall>row \<in> set (rows rl). \<exists>y. Openai_scattered (o_top_k P) row = Inr y"
    using rl_rows(2) k Openai_scattered_ok by simp
  from sequence_map_Inr[OF this] obtain scattered where
    sc: "sequence (map (Openai_scattered (o_top_k P)) (rows rl)) = Inr scattered"
      "length scattered = length (rows rl)" by blast
  have scn: "length scattered = ?n" using sc(2) rl_rows(1) by simp
  let ?scores = "tmap xsigmoid \<lparr> shape = [?E, ?n],
                                   data = concat (transpose_rows ?E scattered) \<rparr>"
  let ?rin0 = "\<lparr> shape = [?E * ?n, ?H], data = concat (replicate ?E (data hidden_states)) \<rparr>"
  let ?col = "\<lparr> shape = [?E * ?n, Suc 0], data = data ?scores \<rparr>"
  have col: "reshape_infer [] [Suc 0] ?scores = Inr ?col"
    by (simp add: reshape_infer_def numel_def tmap_def)
  from tbinop_matrix_column[of ?rin0 "?E * ?n" ?H ?col "(*)"]
  obtain rin where rin: "tbinop (*) ?rin0 ?col = Inr rin" "shape rin = [?E * ?n, ?H]" by auto
  from OpenaiExperts_forward_shape[OF rin(2) refl refl e h] obtain rout where
    rout: "OpenaiExperts_forward P rin = Inr rout" "shape rout = [?E * ?n, ?H]" by blast
  show ?thesis
    unfolding OpenaiMLP_forward_def
    by (simp add: flat rl(1) sc(1) Let_def scn col rin(1) rout(1) o_shared_expert_def)
qed

subsection \<open>write_model\<close>

lemma write_model_never_returns: "\<exists>e. write_model env = Inl e"
  by (simp add: write_model_def tqdm_def ebind_def split: sum.split)

subsection \<open>The small modules are well formed\<close>

lemma example_qwen2moe_wf:
  "wf_qwen2moe example_qwen2moe" "0 < hidden_size example_qwen2moe"
  "num_experts_per_tok example_qwen2moe \<le> num_experts example_qwen2moe"
  "hidden_size example_qwen2moe = 2"
  by (simp_all add: example_qwen2moe_def wf_qwen2moe_def wf_linear_def gate_def
      shared_expert_gate_def wf_mlp_def)

lemma example_openai_mlp_wf:
  "wf_openai_mlp example_openai_mlp" "0 < o_hidden_dim example_openai_mlp"
  "0 < o_num_experts example_openai_mlp"
  "o_top_k example_openai_mlp \<le> o_num_experts example_openai_mlp"
  by (simp_all add: example_openai_mlp_def wf_openai_mlp_def wf_linear_def router_def)

lemma example_sequence_wf:
  "wf_tensor example_sequence" "shape example_sequence = [1, 2, hidden_size example_qwen2moe]"
  "numel example_sequence mod o_hidden_dim example_openai_mlp = 0"
  by (simp_all add: example_sequence_def example_qwen2moe_def example_openai_mlp_def
      wf_tensor_def numel_def)

lemma example_batch_wf:
  "wf_tensor example_batch" "numel example_batch mod o_hidden_dim example_openai_mlp = 0"
  "shape example_batch = [2, 1, hidden_size example_qwen2moe]"
  "shape example_batch = [2, 1, 2]"
  by (simp_all add: example_batch_def example_openai_mlp_def example_qwen2moe_def
      wf_tensor_def numel_def)

subsection \<open>The split branch of the conversion loop\<close>

text \<open>
  An iteration of the loop that takes the split branch, on a fused tensor whose last
  axis has size \<open>3 * n\<close>: the three pieces are the contiguous slices \<open>0..n\<close>,
  \<open>n..2n\<close> and \<open>2n..3n\<close> of the last axis, they are bound to three different
  names, and concatenating them in that order gives the tensor back.
\<close>

lemma write_model_step_split:
  assumes "wf_tensor t" and "shape t \<noteq> []" and "last_size t = 3 * n"
    and "loaded key = Some t"
    and "re_search qkv_pattern (get_default new_keys key)"
    and "contains ''language_model'' (get_default new_keys key)"
  shows "\<exists>q_key k_key v_key q k v.
           write_model_step new_keys loaded state_dict key
             = Inr (state_dict(q_key \<mapsto> q, k_key \<mapsto> k, v_key \<mapsto> v))
         \<and> re_sub qkv_pattern (rlit ''q_proj.weight'') (get_default new_keys key) = Inr q_key
         \<and> re_sub qkv_pattern (rlit ''k_proj.weight'') (get_default new_keys key) = Inr k_key
         \<and> re_sub qkv_pattern (rlit ''v_proj.weight'') (get_default new_keys key) = Inr v_key
         \<and> distinct [q_key, k_key, v_key]
         \<and> q = narrow_last 0 n t \<and> k = narrow_last n n t \<and> v = narrow_last (2 * n) n t
         \<and> last_size q = n \<and> last_size k = n \<and> last_size v = n
         \<and> cat_last [q, k, v] = t"
proof -
  let ?nk = "get_default new_keys key"
  obtain q_key where q: "re_sub qkv_pattern (rlit ''q_proj.weight'') ?nk = Inr q_key"
    using re_sub_rlit_total by blast
  obtain k_key where k: "re_sub qkv_pattern (rlit ''k_proj.weight'') ?nk = Inr k_key"
    using re_sub_rlit_total by blast
  obtain v_key where v: "re_sub qkv_pattern (rlit ''v_proj.weight'') ?nk = Inr v_key"
    using re_sub_rlit_total by blast
  have d: "q_key \<noteq> k_key" "q_key \<noteq> v_key" "k_key \<noteq> v_key"
    using re_sub_rlit_differ[OF _ assms(5) q k] re_sub_rlit_differ[OF _ assms(5) q v]
      re_sub_rlit_differ[OF _ assms(5) k v] by simp_all
  have step: "write_model_step new_keys loaded state_dict key
      = Inr (state_dict(q_key \<mapsto> narrow_last 0 n t, k_key \<mapsto> narrow_last n n t,
               v_key \<mapsto> narrow_last (2 * n) n t))"
    using assms(4,5,6) q k v qkv_unpack_multiple[OF assms(2,3)]
    by (simp add: write_model_step_def lookup_def)
  have "last (shape t) = n + n + n" using assms(3) by (simp add: last_size_def)
  from cat_three_rows[OF assms(1,2) this]
  have cat: "cat_last [narrow_last 0 n t, narrow_last n n t, narrow_last (2 * n) n t] = t"
    by (simp add: mult_2)
  show ?thesis using step q k v d cat by (simp add: last_size_narrow_last)
qed

subsection \<open>Names that no rule matches\<close>

text \<open>
  When the remapper returns, a name that no rule of the table matches is mapped to
  itself, whatever the other keys are; and keys that match no rule never make the
  remapper raise.
\<close>

lemma unmatched_name_passes_through:
  assumes "matches_no_rule name"
  shows "(convert_old_keys_to_new_keys (Some keys) = Inr new_keys \<longrightarrow>
            get_default new_keys name = name
          \<and> (name \<in> set keys \<and> newline \<notin> set name \<longrightarrow> new_keys name = Some name))
       \<and> (list_all matches_no_rule keys \<longrightarrow>
            (\<exists>nk. convert_old_keys_to_new_keys (Some keys) = Inr nk))"
proof (intro conjI impI)
  let ?T = ORIGINAL_TO_CONVERTED_KEY_MAPPING
  let ?old = "join_lines keys"
  let ?L = "split_lines ?old"
  have un: "apply_rules ?T name = Inr name"
    using assms by (intro apply_rules_unmatched) (simp add: matches_no_rule_def)
  {
    assume c: "convert_old_keys_to_new_keys (Some keys) = Inr new_keys"
    then obtain new_text where nt: "apply_rules ?T ?old = Inr new_text"
      "new_keys = dict_of (zip ?L (split_lines new_text))"
      by (auto simp: convert_old_keys_to_new_keys_def Let_def ebind_eq_Inr)
    have Lfree: "\<forall>l \<in> set ?L. newline \<notin> set l" using split_lines_nl_free by blast
    have "apply_rules ?T (join_lines ?L) = Inr new_text" using nt(1) by (simp add: join_split)
    from apply_rules_join[OF table_ok Lfree this] obtain ls' where
      ls': "new_text = join_lines ls'" "list_all2 (\<lambda>l l'. apply_rules ?T l = Inr l') ?L ls'"
      "\<forall>l' \<in> set ls'. newline \<notin> set l'" by blast
    have len: "length ?L = length ls'" using ls'(2) by (rule list_all2_lengthD)
    then have "ls' \<noteq> []" using split_lines_nonempty[of ?old] by auto
    then have sl: "split_lines new_text = ls'" using ls'(1,3) by (simp add: split_join)
    have val: "v = name" if "new_keys name = Some v" for v
    proof -
      from dict_of_zip_Some[OF that[unfolded nt(2) sl]] obtain i where
        i: "i < length ?L" "i < length ls'" "?L ! i = name" "ls' ! i = v" by blast
      with ls'(2) have "apply_rules ?T name = Inr v" by (auto simp: list_all2_conv_all_nth)
      with un show ?thesis by simp
    qed
    show "get_default new_keys name = name"
      using val by (cases "new_keys name") (simp_all add: get_default_def)
    {
      assume k: "name \<in> set keys \<and> newline \<notin> set name"
      then have "keys \<noteq> []" by auto
      then have "?L = concat (map split_lines keys)" by (rule split_join_concat)
      moreover have "name \<in> set (split_lines name)" using k by (simp add: split_lines_one)
      ultimately have "name \<in> set ?L" using k by auto
      from dict_of_zip_dom[OF len this] have "new_keys name \<noteq> None" by (simp add: nt(2) sl)
      then show "new_keys name = Some name" using val by auto
    }
  }
  {
    assume a: "list_all matches_no_rule keys"
    have "list_all (\<lambda>(p, r). \<not> re_search p ?old) ?T"
      unfolding list_all_iff
    proof (intro ballI, clarify)
      fix p r assume pr: "(p, r) \<in> set ?T" and rs: "re_search p ?old"
      from pr table_ok have "\<forall>a \<in> set p. nl_free_atom a" "p \<noteq> []"
        by (auto simp: list_all_iff rule_ok_def)
      moreover have "\<forall>k \<in> set keys. \<not> re_search p k"
        using a pr by (auto simp: list_all_iff matches_no_rule_def)
      ultimately show False using unmatched_keys_unmatched_text rs by blast
    qed
    then have "apply_rules ?T ?old = Inr ?old" by (rule apply_rules_unmatched)
    then show "\<exists>nk. convert_old_keys_to_new_keys (Some keys) = Inr nk"
      by (simp add: convert_old_keys_to_new_keys_def Let_def)
  }
qed

subsection \<open>The claims\<close>

text \<open>
  C1, at a failing input. The rule for \<open>block.(\d+).attn.qkv\<close> writes the text
  \<open>(k|v|q)_proj\<close> into the new name as it stands, parentheses and bars included.
  The loop's test for the split, \<open>re.search("(k|v|q)_proj.weight", new_key) and
  "language_model" in new_key\<close>, fails on such a name: the character before
  \<open>_proj\<close> is the closing parenthesis, and the name does not contain
  \<open>language_model\<close>. The fused tensor of \<open>block.0.attn.qkv.weight\<close>, of last-axis
  size 6, is therefore bound whole under the one name, and nothing is bound under the
  query, key and value names.
\<close>

theorem fused_qkv_stored_whole:
  "(case convert_old_keys_to_new_keys (Some [''block.0.attn.qkv.weight'']) of
      Inl e \<Rightarrow> False
    | Inr new_keys \<Rightarrow>
        new_keys ''block.0.attn.qkv.weight'' = Some ''layers.0.self_attn.(k|v|q)_proj.weight'')
   \<and> \<not> re_search qkv_pattern ''layers.0.self_attn.(k|v|q)_proj.weight''
   \<and> \<not> contains ''language_model'' ''layers.0.self_attn.(k|v|q)_proj.weight''
   \<and> (case write_model_state_dict
             [(''block.0.attn.qkv.weight'',
               \<lparr>shape = [2, 6], data = [10, 11, 12, 13, 14, 15, 20, 21, 22, 23, 24, 25 :: nat]\<rparr>)] of
        Inl e \<Rightarrow> False
      | Inr state_dict \<Rightarrow>
          state_dict ''layers.0.self_attn.(k|v|q)_proj.weight''
            = Some \<lparr>shape = [2, 6], data = [10, 11, 12, 13, 14, 15, 20, 21, 22, 23, 24, 25]\<rparr>
        \<and> state_dict ''layers.0.self_attn.q_proj.weight'' = None
        \<and> state_dict ''layers.0.self_attn.k_proj.weight'' = None
        \<and> state_dict ''layers.0.self_attn.v_proj.weight'' = None)"
  by code_simp

text \<open>
  C2. The two variants weigh the experts in different orders. In the Qwen2Moe variant
  the top \<open>top_k\<close> are taken from the softmax of the whole score vector: every
  selected weight is the exponential of its expert's score over the sum of the
  exponentials of all scores (divided by the sum of the selected weights when
  \<open>norm_topk_prob\<close> is set). In the Openai variant the top \<open>top_k\<close> are taken
  from the raw scores, and the score of an expert is the sigmoid of its own raw score
  when it is selected and 0, the sigmoid of \<open>-inf\<close>, when it is not.
\<close>

theorem routing_orders:
  assumes "top_k \<le> length logits"
  shows "(\<exists>w sel. topk top_k (softmax logits) = Inr (w, sel)
            \<and> Qwen2Moe_routing top_k renorm logits
                = Inr (if renorm then map (\<lambda>x. x / sum_list w) w else w, sel)
            \<and> (\<forall>j < top_k. sel ! j < length logits
                  \<and> w ! j = exp (logits ! (sel ! j)) / sum_list (map exp logits)))
       \<and> (\<exists>v idx scores. topk top_k logits = Inr (v, idx)
            \<and> Openai_router_scores top_k logits = Inr scores
            \<and> length scores = length logits
            \<and> (\<forall>e < length logits.
                  scores ! e = (if e \<in> set idx then sigmoid (logits ! e) else 0)))"
  using Qwen2Moe_routing_props[OF assms, of renorm] Openai_router_scores_props[OF assms] by blast

theorem routing_orders_witness:
  "(\<exists>w sel. topk 2 (softmax [0, 1, 2]) = Inr (w, sel)
      \<and> Qwen2Moe_routing 2 False [0, 1, 2] = Inr (w, sel))
   \<and> (\<exists>v idx scores. topk 2 [0, 1, 2] = Inr (v, idx)
      \<and> Openai_router_scores 2 [0, 1, 2] = Inr scores \<and> length scores = 3)"
proof -
  have h: "(2::nat) \<le> length [0, 1, 2 :: real]" by simp
  from routing_orders[OF h, of False] show ?thesis by auto
qed

text \<open>
  C4, at a failing input: a batch of two sequences of one vector of width 2, a
  tensor of shape \<open>[2, 1, 2]\<close>. The \<open>Qwen2MoeSparseMoeBlock\<close> reshapes the experts'
  output to \<open>[2, 1, 2]\<close> in line 136, before it adds the shared expert's output of
  shape \<open>[2, 2]\<close> in line 141; the sum has the shape \<open>[2, 2, 2]\<close>, and the reshape of
  line 142 to \<open>[2, 1, 2]\<close> raises. The \<open>OpenaiMLP\<close> raises at the lookup of
  \<open>self.shared_expert\<close>. Neither block returns a tensor of the shape of the input.
\<close>

theorem moe_blocks_raise_on_batch:
  "shape example_batch = [2, 1, 2]
   \<and> Qwen2MoeSparseMoeBlock_forward example_qwen2moe example_batch = Inl ShapeError
   \<and> OpenaiMLP_forward example_openai_mlp example_batch = Inl AttributeError"
proof -
  have "(2::nat) \<le> 2" "(0::nat) < 1" by simp_all
  from Qwen2MoeSparseMoeBlock_batch_error[OF example_qwen2moe_wf(1) example_batch_wf(1,3)
      example_qwen2moe_wf(2,3) this]
  have "Qwen2MoeSparseMoeBlock_forward example_qwen2moe example_batch = Inl ShapeError" .
  moreover from OpenaiMLP_forward_AttributeError[OF example_openai_mlp_wf(1) example_batch_wf(1)
      example_openai_mlp_wf(2,3) example_batch_wf(2) example_openai_mlp_wf(4)]
  have "OpenaiMLP_forward example_openai_mlp example_batch = Inl AttributeError" .
  ultimately show ?thesis using example_batch_wf(4) by simp
qed

text \<open>
  C5, at a failing input. \<open>OpenaiMLP.forward\<close> reads \<open>self.shared_expert\<close>, an
  attribute that \<open>__init__\<close> never sets: on every module and every input the call
  raises, and on a well-formed module and input, such as the sequence of two vectors
  \<open>[2, 3]\<close> and \<open>[5, 7]\<close>, with the \<open>AttributeError\<close> of that lookup. No output is
  returned, so no contribution of a shared expert is added to any vector's output.
\<close>

theorem openai_shared_expert_missing:
  "(\<exists>e. OpenaiMLP_forward P hidden_states = Inl e)
   \<and> OpenaiMLP_forward example_openai_mlp example_sequence = Inl AttributeError"
  using OpenaiMLP_forward_never_returns[of P hidden_states]
    OpenaiMLP_forward_AttributeError[OF example_openai_mlp_wf(1) example_sequence_wf(1)
      example_openai_mlp_wf(2,3) example_sequence_wf(3) example_openai_mlp_wf(4)]
  by simp

text \<open>
  C6, at a failing input. The rule for \<open>rope.freqs\<close> has the replacement \<open>None\<close>,
  commented in the table as a key that is skipped and not wanted. For the key
  \<open>rope.freqs\<close> the remapper returns the empty name, and the conversion loop binds
  the tensor under that empty name instead of leaving it out.
\<close>

theorem rope_freqs_bound_under_empty_name:
  "(case convert_old_keys_to_new_keys (Some [''rope.freqs'']) of
      Inl e \<Rightarrow> False | Inr new_keys \<Rightarrow> new_keys ''rope.freqs'' = Some '''')
   \<and> (case write_model_state_dict [(''rope.freqs'', \<lparr>shape = [2], data = [5, 6 :: nat]\<rparr>)] of
      Inl e \<Rightarrow> False
    | Inr state_dict \<Rightarrow> state_dict '''' = Some \<lparr>shape = [2], data = [5, 6]\<rparr>)"
  by code_simp

text \<open>
  C7, at a failing input. The name \<open>final_scale\<close> matches no rule of the table. In
  a list with the key \<open>block.0.attn.out.weight\<close> it is not mapped to itself: the
  template of the rule for \<open>block.(\d+).attn.out\<close> is \<open>layers.\1.self_attn.\2_proj\<close>,
  and the pattern has one group only, so the substitution raises and the remapper
  returns no mapping for any name of the list.
\<close>

theorem unmatched_name_lost:
  "matches_no_rule ''final_scale''
   \<and> (case convert_old_keys_to_new_keys (Some [''final_scale'', ''block.0.attn.out.weight'']) of
        Inl e \<Rightarrow> e = NoSuchGroup
      | Inr new_keys \<Rightarrow> False)"
  by code_simp

text \<open>
  C8, as the code has it. A last-axis size that is not a multiple of 3 raises only
  when it is 1, 2 or 4, where \<open>chunk\<close> returns fewer than three pieces and the
  assignment to \<open>q, k, v\<close> fails. For every other such size \<open>s\<close> the split returns
  three pieces of sizes \<open>c\<close>, \<open>c\<close> and \<open>s - 2 * c\<close>, with \<open>c\<close> the third of \<open>s\<close>
  rounded up, and no error is raised.
\<close>

theorem qkv_split_not_divisible:
  assumes "shape t \<noteq> []" and "\<not> 3 dvd last_size t"
  shows "(last_size t \<in> {1, 2, 4} \<longrightarrow> qkv_unpack t = Inl UnpackError)
       \<and> (last_size t \<notin> {1, 2, 4} \<longrightarrow>
            qkv_unpack t =
              Inr (narrow_last 0 ((last_size t + 2) div 3) t,
                   narrow_last ((last_size t + 2) div 3) ((last_size t + 2) div 3) t,
                   narrow_last (2 * ((last_size t + 2) div 3))
                     (last_size t - 2 * ((last_size t + 2) div 3)) t))"
proof (intro conjI impI)
  assume "last_size t \<in> {1, 2, 4}"
  then show "qkv_unpack t = Inl UnpackError"
    using chunk3_one[OF assms(1)] chunk3_two[OF assms(1)] chunk3_four[OF assms(1)]
    by (auto simp: qkv_unpack_def last_size_def)
next
  assume a: "last_size t \<notin> {1, 2, 4}"
  let ?s = "last (shape t)"
  have "2 * ((?s + 2) div 3) < ?s" using a assms(2) unfolding last_size_def by auto presburger
  from chunk3_three[OF assms(1) refl refl this]
  show "qkv_unpack t =
              Inr (narrow_last 0 ((last_size t + 2) div 3) t,
                   narrow_last ((last_size t + 2) div 3) ((last_size t + 2) div 3) t,
                   narrow_last (2 * ((last_size t + 2) div 3))
                     (last_size t - 2 * ((last_size t + 2) div 3)) t)"
    by (simp add: qkv_unpack_def last_size_def)
qed

theorem qkv_split_not_divisible_witness:
  "\<not> 3 dvd last_size \<lparr>shape = [8], data = [10, 11, 12, 13, 14, 15, 16, 17 :: nat]\<rparr>
   \<and> qkv_unpack \<lparr>shape = [8], data = [10, 11, 12, 13, 14, 15, 16, 17 :: nat]\<rparr>
       = Inr (\<lparr>shape = [3], data = [10, 11, 12]\<rparr>, \<lparr>shape = [3], data = [13, 14, 15]\<rparr>,
              \<lparr>shape = [2], data = [16, 17]\<rparr>)"
proof -
  let ?t = "\<lparr>shape = [8], data = [10, 11, 12, 13, 14, 15, 16, 17 :: nat]\<rparr>"
  have h1: "shape ?t \<noteq> []" by simp
  have h2: "\<not> 3 dvd last_size ?t" by (simp add: last_size_def)
  have h3: "last_size ?t \<notin> {1, 2, 4}" by (simp add: last_size_def)
  have s: "last_size ?t = 8" by (simp add: last_size_def)
  have n1: "narrow_last 0 3 ?t = \<lparr>shape = [3], data = [10, 11, 12]\<rparr>" by code_simp
  have n2: "narrow_last 3 3 ?t = \<lparr>shape = [3], data = [13, 14, 15]\<rparr>" by code_simp
  have n3: "narrow_last 6 2 ?t = \<lparr>shape = [2], data = [16, 17]\<rparr>" by code_simp
  from qkv_split_not_divisible[OF h1 h2] h3
  have "qkv_unpack ?t = Inr (narrow_last 0 ((last_size ?t + 2) div 3) ?t,
                   narrow_last ((last_size ?t + 2) div 3) ((last_size ?t + 2) div 3) ?t,
                   narrow_last (2 * ((last_size ?t + 2) div 3))
                     (last_size ?t - 2 * ((last_size ?t + 2) div 3)) ?t)" by blast
  then show ?thesis using h2 unfolding s by (simp add: n1 n2 n3)
qed

text \<open>
  The claim C8 as stated fails for a last axis of size 5: the split returns pieces
  of sizes 2, 2 and 1.
\<close>

theorem qkv_split_size5_no_error:
  "\<not> 3 dvd last_size \<lparr>shape = [5], data = [10, 11, 12, 13, 14 :: nat]\<rparr>
   \<and> qkv_unpack \<lparr>shape = [5], data = [10, 11, 12, 13, 14 :: nat]\<rparr>
       = Inr (\<lparr>shape = [2], data = [10, 11]\<rparr>, \<lparr>shape = [2], data = [12, 13]\<rparr>,
              \<lparr>shape = [1], data = [14]\<rparr>)"
  by code_simp

text \<open>
  C9, at a failing input. \<open>write_model\<close> never reaches the binding of line 132: on
  every input it raises before, and when the directory can be made, the configuration
  read and the directory listed, with the \<open>TypeError\<close> of line 105, the call of the
  module \<open>tqdm\<close>. So it is for a checkpoint with the single tensor \<open>norm.weight\<close>
  and a target model whose only parameter is \<open>lm_head.weight\<close>, where the strict
  load would have to refuse the names.
\<close>

theorem write_model_stops_before_load:
  "(\<exists>e. write_model env = Inl e)
   \<and> write_model example_env = Inl TypeError
   \<and> (case write_model_state_dict [(''norm.weight'', \<lparr>shape = [2], data = [5, 6 :: nat]\<rparr>)] of
        Inl e \<Rightarrow> False
      | Inr state_dict \<Rightarrow>
          state_dict ''norm.weight'' = Some \<lparr>shape = [2], data = [5, 6]\<rparr>
        \<and> state_dict ''lm_head.weight'' = None)"
proof -
  have "write_model example_env = Inl TypeError"
    by (simp add: write_model_def example_env_def tqdm_def)
  moreover have "case write_model_state_dict [(''norm.weight'', \<lparr>shape = [2], data = [5, 6 :: nat]\<rparr>)] of
        Inl e \<Rightarrow> False
      | Inr state_dict \<Rightarrow>
          state_dict ''norm.weight'' = Some \<lparr>shape = [2], data = [5, 6]\<rparr>
        \<and> state_dict ''lm_head.weight'' = None"
    by code_simp
  ultimately show ?thesis using write_model_never_returns[of env] by simp
qed

text \<open>
  C10. Called with its argument omitted (the default is \<open>None\<close>) or with \<open>None\<close>,
  \<open>convert_old_keys_to_new_keys\<close> returns the empty mapping and does not raise.
\<close>

theorem convert_None_empty:
  "convert_old_keys_to_new_keys None = Inr Map.empty"
  by (simp add: convert_old_keys_to_new_keys_def)

end
